theory Spec2Isabelle
  imports Complex_Main "HOL-Library.Char_ord" "HOL-Library.List_Lexorder"
begin

section \<open>Data model\<close>

text \<open>
  The script \<^verbatim>\<open>data_tracker.py\<close> works on pandas data frames. A frame is modelled as
  the list of its numeric column names and the list of its rows, each row carrying its
  index label (the default \<^verbatim>\<open>RangeIndex\<close> position given by \<^verbatim>\<open>read_csv\<close>).

  \<^item> A numeric cell is a \<open>float64 option\<close>: \<open>None\<close> is NaN, pandas' missing
    marker; \<open>Some (Fin x)\<close> is the number \<open>x\<close>; \<open>Some PInf\<close> and \<open>Some NInf\<close> are
    the two infinities, which \<^verbatim>\<open>read_csv\<close> reads from \<^verbatim>\<open>inf\<close> and \<^verbatim>\<open>-inf\<close>.
    Arithmetic follows IEEE 754 on NaN and the infinities and is exact on numbers:
    rounding, overflow and the sign of zero are outside the model, and no statement
    below depends on the magnitude of a result.
  \<^item> The column \<^verbatim>\<open>date\<close> (after \<^verbatim>\<open>pd.to_datetime\<close>) is an \<open>int option\<close>: a day
    number, or \<open>None\<close> for \<^verbatim>\<open>NaT\<close>.
  \<^item> The column \<^verbatim>\<open>location\<close> is a string. Rows whose location is missing never pass
    the \<^verbatim>\<open>isin\<close> filter of line 92 and are not modelled.
  \<^item> The columns \<^verbatim>\<open>location\<close> and \<^verbatim>\<open>date\<close> exist in every frame that reaches
    line 91 (lines 78 and 84 raise otherwise), so the tests \<^verbatim>\<open>'date' in columns\<close> are
    true and the field \<open>columns\<close> lists the other (numeric) columns only.
\<close>

datatype float64 = Fin real | PInf | NInf

instantiation float64 :: linorder
begin

fun less_eq_float64 :: "float64 \<Rightarrow> float64 \<Rightarrow> bool" where
  "less_eq_float64 NInf y = True"
| "less_eq_float64 (Fin a) NInf = False"
| "less_eq_float64 (Fin a) (Fin b) = (a \<le> b)"
| "less_eq_float64 (Fin a) PInf = True"
| "less_eq_float64 PInf NInf = False"
| "less_eq_float64 PInf (Fin b) = False"
| "less_eq_float64 PInf PInf = True"

fun less_float64 :: "float64 \<Rightarrow> float64 \<Rightarrow> bool" where
  "less_float64 x NInf = False"
| "less_float64 NInf (Fin b) = True"
| "less_float64 NInf PInf = True"
| "less_float64 (Fin a) (Fin b) = (a < b)"
| "less_float64 (Fin a) PInf = True"
| "less_float64 PInf (Fin b) = False"
| "less_float64 PInf PInf = False"

instance
proof
  fix x y z :: float64
  show "(x < y) = (x \<le> y \<and> \<not> y \<le> x)" by (cases x; cases y) auto
  show "x \<le> x" by (cases x) auto
  show "x \<le> y \<Longrightarrow> y \<le> z \<Longrightarrow> x \<le> z" by (cases x; cases y; cases z) auto
  show "x \<le> y \<Longrightarrow> y \<le> x \<Longrightarrow> x = y" by (cases x; cases y) auto
  show "x \<le> y \<or> y \<le> x" by (cases x; cases y) auto
qed

end

record row =
  location :: string
  date :: "int option"
  cells :: "string \<Rightarrow> float64 option"

record dataframe =
  columns :: "string list"
  rows :: "(nat \<times> row) list"

datatype error = KeyError | ValueError | TypeError

text \<open>What section 6 prints: one line per ranking query, or one line for the whole section.\<close>

datatype report =
    Insight nat string "float64 option"
  | Skipped nat
  | NoInsights
  | Failed error

definition read_csv :: "string list \<Rightarrow> row list \<Rightarrow> dataframe" where
  "read_csv cols rs = \<lparr>columns = cols, rows = enumerate 0 rs\<rparr>"

definition empty_frame :: dataframe where
  "empty_frame = \<lparr>columns = [], rows = []\<rparr>"

definition column :: "string \<Rightarrow> dataframe \<Rightarrow> float64 option list" where
  "column c df = map (\<lambda>(i, r). cells r c) (rows df)"

definition index :: "dataframe \<Rightarrow> nat list" where
  "index df = map fst (rows df)"

definition locations :: "dataframe \<Rightarrow> string list" where
  "locations df = map (\<lambda>(i, r). location r) (rows df)"

definition dates :: "dataframe \<Rightarrow> int option list" where
  "dates df = map (\<lambda>(i, r). date r) (rows df)"

text \<open>\<^verbatim>\<open>df[c] = values\<close>: the column is overwritten, or appended when it is new.\<close>

definition set_column :: "string \<Rightarrow> float64 option list \<Rightarrow> dataframe \<Rightarrow> dataframe" where
  "set_column c vs df =
     \<lparr>columns = (if c \<in> set (columns df) then columns df else columns df @ [c]),
      rows = map (\<lambda>(v, (i, r)). (i, r\<lparr>cells := (cells r)(c := v)\<rparr>)) (zip vs (rows df))\<rparr>"

section \<open>Series operations of pandas and numpy used by the script\<close>

text \<open>\<^verbatim>\<open>Series.ffill()\<close>: a missing value takes the last value seen before it, if any.\<close>

fun ffill_from :: "'a option \<Rightarrow> 'a option list \<Rightarrow> 'a option list" where
  "ffill_from last_seen [] = []"
| "ffill_from last_seen (None # xs) = last_seen # ffill_from last_seen xs"
| "ffill_from last_seen (Some v # xs) = Some v # ffill_from (Some v) xs"

definition ffill :: "'a option list \<Rightarrow> 'a option list" where
  "ffill xs = ffill_from None xs"

text \<open>
  \<^verbatim>\<open>groupby(keys)[col].transform(f)\<close>: the rows are split by key, \<open>f\<close> is applied to each
  group's values (in row order), and every row receives the value at its own position
  within its group.
\<close>

definition group_values :: "'k list \<Rightarrow> 'a list \<Rightarrow> 'k \<Rightarrow> 'a list" where
  "group_values ks vs k = map snd (filter (\<lambda>(k', v). k' = k) (zip ks vs))"

definition group_pos :: "'k list \<Rightarrow> nat \<Rightarrow> nat" where
  "group_pos ks i = length (filter (\<lambda>k'. k' = ks ! i) (take i ks))"

definition groupby_transform :: "('a list \<Rightarrow> 'b list) \<Rightarrow> 'k list \<Rightarrow> 'a list \<Rightarrow> 'b list" where
  "groupby_transform f ks vs =
     map (\<lambda>i. f (group_values ks vs (ks ! i)) ! group_pos ks i) [0..<length vs]"

text \<open>
  \<^verbatim>\<open>Series.idxmax()\<close> with \<^verbatim>\<open>skipna=True\<close>: the label of the first occurrence of the
  maximum among the non-missing values; \<open>None\<close> when there is no such value (pandas then
  gives NaN or raises, depending on the version).
\<close>

fun idxmax_from :: "('l \<times> 'a) option \<Rightarrow> ('l \<times> ('a::linorder) option) list \<Rightarrow> ('l \<times> 'a) option" where
  "idxmax_from best [] = best"
| "idxmax_from best ((l, None) # xs) = idxmax_from best xs"
| "idxmax_from best ((l, Some v) # xs) =
     idxmax_from (case best of
                    None \<Rightarrow> Some (l, v)
                  | Some (bl, bv) \<Rightarrow> if bv < v then Some (l, v) else Some (bl, bv)) xs"

definition idxmax :: "('l \<times> ('a::linorder) option) list \<Rightarrow> 'l option" where
  "idxmax xs = map_option fst (idxmax_from None xs)"

text \<open>\<^verbatim>\<open>Series.max()\<close> with \<^verbatim>\<open>skipna=True\<close>.\<close>

definition series_max :: "('a::linorder) option list \<Rightarrow> 'a option" where
  "series_max xs = map_option snd (idxmax_from None (map (\<lambda>x. ((), x)) xs))"

definition notna_any :: "'a option list \<Rightarrow> bool" where
  "notna_any xs = (filter (\<lambda>x. x \<noteq> None) xs \<noteq> [])"

definition fillna :: "float64 \<Rightarrow> float64 option list \<Rightarrow> float64 option list" where
  "fillna c xs = map (\<lambda>x. case x of None \<Rightarrow> Some c | Some v \<Rightarrow> Some v) xs"

text \<open>\<^verbatim>\<open>series > c\<close>: a comparison with NaN is false.\<close>

definition gt_scalar :: "float64 option list \<Rightarrow> float64 \<Rightarrow> bool list" where
  "gt_scalar xs c = map (\<lambda>x. case x of None \<Rightarrow> False | Some v \<Rightarrow> c < v) xs"

text \<open>
  Float division. A number over zero is an infinity of the number's sign, zero over zero
  and an infinity over an infinity are NaN, a number over an infinity is zero, and an
  infinity over a number keeps or flips its sign with the sign of the number.
\<close>

fun div64 :: "float64 \<Rightarrow> float64 \<Rightarrow> float64 option" where
  "div64 (Fin x) (Fin y) =
     (if y = 0 then (if x = 0 then None else if 0 < x then Some PInf else Some NInf)
      else Some (Fin (x / y)))"
| "div64 (Fin x) PInf = Some (Fin 0)"
| "div64 (Fin x) NInf = Some (Fin 0)"
| "div64 PInf (Fin y) = (if y < 0 then Some NInf else Some PInf)"
| "div64 NInf (Fin y) = (if y < 0 then Some PInf else Some NInf)"
| "div64 PInf PInf = None"
| "div64 PInf NInf = None"
| "div64 NInf PInf = None"
| "div64 NInf NInf = None"

text \<open>Element-wise division of two series; NaN propagates.\<close>

definition fdiv :: "float64 option \<Rightarrow> float64 option \<Rightarrow> float64 option" where
  "fdiv a b = (case a of None \<Rightarrow> None
               | Some x \<Rightarrow> (case b of None \<Rightarrow> None | Some y \<Rightarrow> div64 x y))"

definition series_div :: "float64 option list \<Rightarrow> float64 option list \<Rightarrow> float64 option list" where
  "series_div xs ys = map (\<lambda>(x, y). fdiv x y) (zip xs ys)"

text \<open>
  \<^verbatim>\<open>series * c\<close> for a number \<open>c\<close>: an infinity keeps or flips its sign with the sign
  of \<open>c\<close>, and an infinity times zero is NaN.
\<close>

fun mul64 :: "float64 \<Rightarrow> real \<Rightarrow> float64 option" where
  "mul64 (Fin x) c = Some (Fin (x * c))"
| "mul64 PInf c = (if 0 < c then Some PInf else if c < 0 then Some NInf else None)"
| "mul64 NInf c = (if 0 < c then Some NInf else if c < 0 then Some PInf else None)"

definition series_mul :: "float64 option list \<Rightarrow> real \<Rightarrow> float64 option list" where
  "series_mul xs c = map (\<lambda>x. case x of None \<Rightarrow> None | Some v \<Rightarrow> mul64 v c) xs"

text \<open>\<^verbatim>\<open>np.where(cond, values, c)\<close>.\<close>

definition np_where :: "bool list \<Rightarrow> float64 option list \<Rightarrow> float64 \<Rightarrow> float64 option list" where
  "np_where cond xs c = map (\<lambda>(b, x). if b then x else Some c) (zip cond xs)"

text \<open>
  \<^verbatim>\<open>Series.mean()\<close> with \<^verbatim>\<open>skipna=True\<close>: the sum of the values present over their
  count, NaN when no value is present. A sum that meets both infinities is NaN.
\<close>

definition present :: "'a option list \<Rightarrow> 'a list" where
  "present xs = concat (map (\<lambda>x. case x of None \<Rightarrow> [] | Some v \<Rightarrow> [v]) xs)"

fun add64 :: "float64 \<Rightarrow> float64 \<Rightarrow> float64 option" where
  "add64 (Fin x) (Fin y) = Some (Fin (x + y))"
| "add64 (Fin x) PInf = Some PInf"
| "add64 (Fin x) NInf = Some NInf"
| "add64 PInf (Fin y) = Some PInf"
| "add64 NInf (Fin y) = Some NInf"
| "add64 PInf PInf = Some PInf"
| "add64 NInf NInf = Some NInf"
| "add64 PInf NInf = None"
| "add64 NInf PInf = None"

fun sum64_from :: "float64 option \<Rightarrow> float64 list \<Rightarrow> float64 option" where
  "sum64_from acc [] = acc"
| "sum64_from None (v # vs) = None"
| "sum64_from (Some a) (v # vs) = sum64_from (add64 a v) vs"

definition sum64 :: "float64 list \<Rightarrow> float64 option" where
  "sum64 vs = sum64_from (Some (Fin 0)) vs"

definition mean :: "float64 option list \<Rightarrow> float64 option" where
  "mean xs = (case present xs of
                [] \<Rightarrow> None
              | v # vs \<Rightarrow> (case sum64 (v # vs) of
                            None \<Rightarrow> None
                          | Some sm \<Rightarrow> div64 sm (Fin (real (length (v # vs))))))"

text \<open>The keys of a \<^verbatim>\<open>groupby\<close> (\<^verbatim>\<open>sort=True\<close>): the distinct keys in ascending order.\<close>

definition group_keys :: "('k::linorder) list \<Rightarrow> 'k list" where
  "group_keys ks = sort (remdups ks)"

section \<open>Section 3: location filter, gap filling, latest snapshot\<close>

definition countries_of_interest :: "string list" where
  "countries_of_interest =
     [''United States'', ''India'', ''Brazil'', ''Kenya'', ''United Kingdom'', ''Germany'']"

text \<open>Line 92: \<^verbatim>\<open>df[df['location'].isin(countries_of_interest)]\<close>.\<close>

definition df_countries :: "dataframe \<Rightarrow> dataframe" where
  "df_countries df =
     df\<lparr>rows := filter (\<lambda>(i, r). location r \<in> set countries_of_interest) (rows df)\<rparr>"

definition key_metrics :: "string list" where
  "key_metrics = [''total_cases'', ''new_cases'', ''total_deaths'', ''new_deaths'',
                  ''people_vaccinated'', ''people_fully_vaccinated'']"

text \<open>Lines 104--106, one iteration of the loop and the loop.\<close>

definition fill_metric :: "string \<Rightarrow> dataframe \<Rightarrow> dataframe" where
  "fill_metric metric df =
     (if metric \<in> set (columns df)
      then set_column metric (groupby_transform ffill (locations df) (column metric df)) df
      else df)"

definition fill_key_metrics :: "dataframe \<Rightarrow> dataframe" where
  "fill_key_metrics df = fold fill_metric key_metrics df"

text \<open>
  Line 115. \<^verbatim>\<open>groupby('location')['date'].idxmax()\<close> gives, for each location in
  ascending order, the label of its first row with the greatest date; \<^verbatim>\<open>.loc\<close> then
  looks the labels up and raises \<^verbatim>\<open>KeyError\<close> for a label that is NaN (a location
  without any date) or not in the index.
\<close>

definition groupby_idxmax_date :: "dataframe \<Rightarrow> nat option list" where
  "groupby_idxmax_date df =
     map (\<lambda>k. idxmax (map (\<lambda>(i, r). (i, date r)) (filter (\<lambda>(i, r). location r = k) (rows df))))
       (group_keys (locations df))"

fun loc_rows :: "(nat \<times> row) list \<Rightarrow> nat option list \<Rightarrow> error + (nat \<times> row) list" where
  "loc_rows rs [] = Inr []"
| "loc_rows rs (None # ls) = Inl KeyError"
| "loc_rows rs (Some l # ls) =
     (case filter (\<lambda>(i, r). i = l) rs of
        [] \<Rightarrow> Inl KeyError
      | hit # hits \<Rightarrow> (case loc_rows rs ls of
                         Inl e \<Rightarrow> Inl e
                       | Inr rest \<Rightarrow> Inr ((hit # hits) @ rest)))"

text \<open>Lines 112--126; the \<^verbatim>\<open>except\<close> branch leaves the empty frame of line 112.\<close>

definition latest_df :: "dataframe \<Rightarrow> dataframe" where
  "latest_df dfc =
     (if rows dfc \<noteq> []
      then (case loc_rows (rows dfc) (groupby_idxmax_date dfc) of
              Inl e \<Rightarrow> empty_frame
            | Inr rs \<Rightarrow> dfc\<lparr>rows := rs\<rparr>)
      else empty_frame)"

section \<open>Section 6: key insights\<close>

text \<open>
  Lines 270--275 and 286--291: the same expression on two pairs of columns,
  \<^verbatim>\<open>np.where(den.fillna(0) > 0, (num.fillna(0) / den) * 100, 0)\<close> followed by
  \<^verbatim>\<open>fillna(0)\<close>.
\<close>

definition rate_values :: "float64 option list \<Rightarrow> float64 option list \<Rightarrow> float64 option list" where
  "rate_values num den =
     fillna (Fin 0)
       (np_where (gt_scalar (fillna (Fin 0) den) (Fin 0))
          (series_mul (series_div (fillna (Fin 0) num) den) 100) (Fin 0))"

definition death_rate :: "dataframe \<Rightarrow> float64 option list" where
  "death_rate L = rate_values (column ''total_deaths'' L) (column ''total_cases'' L)"

definition vax_rate :: "dataframe \<Rightarrow> float64 option list" where
  "vax_rate L = rate_values (column ''people_vaccinated'' L) (column ''population'' L)"

text \<open>
  \<^verbatim>\<open>_LATEST_DF.loc[label]\<close> for one label: the row, when the label is unique. With a
  repeated label pandas returns a frame and the formatting of the print raises
  \<^verbatim>\<open>TypeError\<close>.
\<close>

definition loc_label :: "dataframe \<Rightarrow> nat \<Rightarrow> error + row" where
  "loc_label L l = (case filter (\<lambda>(i, r). i = l) (rows L) of
                      [] \<Rightarrow> Inl KeyError
                    | [(i, r)] \<Rightarrow> Inr r
                    | _ \<Rightarrow> Inl TypeError)"

text \<open>
  \<^verbatim>\<open>_LATEST_DF.loc[_LATEST_DF[c].idxmax()]\<close> and the print of its location and value
  (lines 263--264, 277--278, 293--294, 322--323).
\<close>

definition top_row :: "nat \<Rightarrow> string \<Rightarrow> dataframe \<Rightarrow> error + report" where
  "top_row q c L =
     (case idxmax (zip (index L) (column c L)) of
        None \<Rightarrow> Inl ValueError
      | Some l \<Rightarrow> (case loc_label L l of
                    Inl e \<Rightarrow> Inl e
                  | Inr r \<Rightarrow> Inr (Insight q (location r) (cells r c))))"

definition query1 :: "dataframe \<Rightarrow> error + report" where
  "query1 L =
     (if ''total_cases'' \<in> set (columns L) \<and> notna_any (column ''total_cases'' L)
      then top_row 1 ''total_cases'' L
      else Inr (Skipped 1))"

definition query2 :: "dataframe \<Rightarrow> dataframe \<times> (error + report)" where
  "query2 L =
     (if ''total_deaths'' \<in> set (columns L) \<and> ''total_cases'' \<in> set (columns L)
      then (let L' = set_column ''death_rate'' (death_rate L) L
            in if notna_any (column ''death_rate'' L')
               then (L', top_row 2 ''death_rate'' L')
               else (L', Inr (Skipped 2)))
      else (L, Inr (Skipped 2)))"

definition query3 :: "dataframe \<Rightarrow> dataframe \<times> (error + report)" where
  "query3 L =
     (if ''people_vaccinated'' \<in> set (columns L) \<and> ''population'' \<in> set (columns L)
      then (let L' = set_column ''vax_rate'' (vax_rate L) L
            in if notna_any (column ''vax_rate'' L')
               then (L', top_row 3 ''vax_rate'' L')
               else (L', Inr (Skipped 3)))
      else (L, Inr (Skipped 3)))"

text \<open>
  Lines 302--306: the rows of the last 30 days, counted from the greatest date of all
  filtered rows, and the mean of \<^verbatim>\<open>new_cases\<close> per location, locations without a mean
  dropped. A comparison with \<^verbatim>\<open>NaT\<close> is false.
\<close>

definition last_month_df :: "dataframe \<Rightarrow> int \<Rightarrow> dataframe" where
  "last_month_df dfc max_date =
     dfc\<lparr>rows := filter (\<lambda>(i, r). case date r of None \<Rightarrow> False | Some d \<Rightarrow> max_date - 30 \<le> d)
                    (rows dfc)\<rparr>"

definition groupby_mean :: "string \<Rightarrow> dataframe \<Rightarrow> (string \<times> float64 option) list" where
  "groupby_mean c df =
     map (\<lambda>k. (k, mean (group_values (locations df) (column c df) k))) (group_keys (locations df))"

text \<open>\<^verbatim>\<open>Series.dropna()\<close>: the entries with a value, in order; what is left holds numbers only.\<close>

definition dropna :: "('k \<times> 'a option) list \<Rightarrow> ('k \<times> 'a) list" where
  "dropna xs = concat (map (\<lambda>(k, x). case x of None \<Rightarrow> [] | Some v \<Rightarrow> [(k, v)]) xs)"

definition avg_new_cases :: "dataframe \<Rightarrow> int \<Rightarrow> (string \<times> float64) list" where
  "avg_new_cases dfc max_date = dropna (groupby_mean ''new_cases'' (last_month_df dfc max_date))"

definition query4 :: "dataframe \<Rightarrow> error + report" where
  "query4 dfc =
     (if ''new_cases'' \<in> set (columns dfc)
      then (case series_max (dates dfc) of
              None \<Rightarrow> Inr (Skipped 4)
            | Some max_date \<Rightarrow>
                if rows (last_month_df dfc max_date) \<noteq> []
                then (let avg = avg_new_cases dfc max_date
                      in if avg \<noteq> []
                         then (case idxmax (map (\<lambda>(k, v). (k, Some v)) avg) of
                                 None \<Rightarrow> Inl ValueError
                               | Some top_avg_new_location \<Rightarrow>
                                   Inr (Insight 4 top_avg_new_location
                                          (series_max (map (\<lambda>(k, v). Some v) avg))))
                         else Inr (Skipped 4))
                else Inr (Skipped 4))
      else Inr (Skipped 4))"

definition query5 :: "dataframe \<Rightarrow> error + report" where
  "query5 L =
     (if ''total_deaths_per_million'' \<in> set (columns L)
         \<and> notna_any (column ''total_deaths_per_million'' L)
      then top_row 5 ''total_deaths_per_million'' L
      else Inr (Skipped 5))"

text \<open>
  Lines 259--331. The queries run in order on the shared frame \<^verbatim>\<open>_LATEST_DF\<close>, which
  queries 2 and 3 extend by a column; an exception ends the section with one line
  (\<^verbatim>\<open>except Exception\<close>). The result is the frame as the section leaves it and the lines
  printed.
\<close>

definition key_insights :: "dataframe \<Rightarrow> dataframe \<Rightarrow> dataframe \<times> report list" where
  "key_insights L dfc =
     (if rows L \<noteq> []
      then (case query1 L of
              Inl e \<Rightarrow> (L, [Failed e])
            | Inr r1 \<Rightarrow>
                (case query2 L of
                   (L2, Inl e) \<Rightarrow> (L2, [r1, Failed e])
                 | (L2, Inr r2) \<Rightarrow>
                     (case query3 L2 of
                        (L3, Inl e) \<Rightarrow> (L3, [r1, r2, Failed e])
                      | (L3, Inr r3) \<Rightarrow>
                          (case query4 dfc of
                             Inl e \<Rightarrow> (L3, [r1, r2, r3, Failed e])
                           | Inr r4 \<Rightarrow>
                               (case query5 L3 of
                                  Inl e \<Rightarrow> (L3, [r1, r2, r3, r4, Failed e])
                                | Inr r5 \<Rightarrow> (L3, [r1, r2, r3, r4, r5]))))))
      else (L, [NoInsights]))"

text \<open>
  The pipeline from the loaded table to the printed insights. Sections 4 and 5 only plot;
  section 5 also stores a column \<^verbatim>\<open>vax_percentage\<close> in \<^verbatim>\<open>_LATEST_DF\<close> (line 207) when
  its plot before that line did not raise, which \<open>plots_ok\<close> stands for.
\<close>

definition vaccination_analysis :: "bool \<Rightarrow> dataframe \<Rightarrow> dataframe \<Rightarrow> dataframe" where
  "vaccination_analysis plots_ok dfc L =
     (if plots_ok \<and> ''people_vaccinated'' \<in> set (columns dfc) \<and> rows L \<noteq> []
         \<and> ''population'' \<in> set (columns L) \<and> ''people_vaccinated'' \<in> set (columns L)
      then set_column ''vax_percentage'' (vax_rate L) L
      else L)"

definition filled_series :: "string list \<Rightarrow> row list \<Rightarrow> dataframe" where
  "filled_series cols rs = fill_key_metrics (df_countries (read_csv cols rs))"

definition snapshot :: "string list \<Rightarrow> row list \<Rightarrow> dataframe" where
  "snapshot cols rs = latest_df (filled_series cols rs)"

definition insights :: "bool \<Rightarrow> string list \<Rightarrow> row list \<Rightarrow> report list" where
  "insights plots_ok cols rs =
     snd (key_insights (vaccination_analysis plots_ok (filled_series cols rs) (snapshot cols rs))
            (filled_series cols rs))"

section \<open>Specification predicates and example data\<close>

text \<open>
  The safe-division policy of a derived rate, for one row: the rate is not NaN; it is 0
  when the denominator is missing (NaN), zero or negative; it is not negative when the
  numerator is missing (NaN) or not negative.
\<close>

definition safe_division_policy :: "float64 option \<Rightarrow> float64 option \<Rightarrow> float64 option \<Rightarrow> bool" where
  "safe_division_policy num den rate =
     (case rate of
        None \<Rightarrow> False
      | Some v \<Rightarrow> ((case den of None \<Rightarrow> True | Some d \<Rightarrow> d \<le> Fin 0) \<longrightarrow> v = Fin 0)
                \<and> ((case num of None \<Rightarrow> True | Some n \<Rightarrow> Fin 0 \<le> n) \<longrightarrow> Fin 0 \<le> v))"

text \<open>A row as the CSV file gives it: the cells listed, every other cell missing.\<close>

definition csv_row :: "string \<Rightarrow> int option \<Rightarrow> (string \<times> float64) list \<Rightarrow> row" where
  "csv_row loc d kv = \<lparr>location = loc, date = d, cells = map_of kv\<rparr>"

definition rate_columns :: "string list" where
  "rate_columns = [''total_cases'', ''total_deaths'', ''people_vaccinated'', ''population'']"

definition rates_example :: "row list" where
  "rates_example =
     [csv_row ''Kenya'' (Some 3) [(''total_cases'', Fin 300), (''total_deaths'', Fin 30),
                                  (''people_vaccinated'', Fin 250), (''population'', Fin 1000)],
      csv_row ''India'' (Some 3) [(''total_cases'', Fin 0), (''total_deaths'', Fin 0)]]"

text \<open>A negative count of deaths, and an infinite one, over 100 cases.\<close>

definition negative_deaths_example :: "row list" where
  "negative_deaths_example =
     [csv_row ''Kenya'' (Some 1) [(''total_cases'', Fin 100), (''total_deaths'', Fin (- 5))]]"

definition infinite_deaths_example :: "row list" where
  "infinite_deaths_example =
     [csv_row ''Kenya'' (Some 1) [(''total_cases'', Fin 100), (''total_deaths'', PInf)]]"

text \<open>The last value present in a list of optional values, if any.\<close>

primrec last_present :: "'a option list \<Rightarrow> 'a option" where
  "last_present [] = None"
| "last_present (x # xs) = (case last_present xs of None \<Rightarrow> x | Some v \<Rightarrow> Some v)"

text \<open>
  Forward fill along the rows: the filled value of row \<open>i\<close> is the raw value of the
  nearest row at or before \<open>i\<close>, of the same location, that has one; it is missing when
  there is no such row.
\<close>

definition filled_in_row_order :: "'k list \<Rightarrow> 'a option list \<Rightarrow> 'a option list \<Rightarrow> bool" where
  "filled_in_row_order loc raw filled \<longleftrightarrow>
     (\<forall>i < length raw.
        (\<forall>j v. j \<le> i \<and> loc ! j = loc ! i \<and> raw ! j = Some v
                \<and> (\<forall>k. j < k \<and> k \<le> i \<and> loc ! k = loc ! i \<longrightarrow> raw ! k = None)
              \<longrightarrow> filled ! i = Some v)
      \<and> ((\<forall>j \<le> i. loc ! j = loc ! i \<longrightarrow> raw ! j = None) \<longrightarrow> filled ! i = None))"

text \<open>Every location's rows carry dates, strictly ascending in row order.\<close>

definition dates_ascending :: "'k list \<Rightarrow> int option list \<Rightarrow> bool" where
  "dates_ascending loc dt \<longleftrightarrow>
     (\<forall>k < length loc. \<forall>j < k. loc ! j = loc ! k \<longrightarrow>
        (\<exists>d e. dt ! j = Some d \<and> dt ! k = Some e \<and> d < e))"

text \<open>
  Forward fill along the dates, as the specification words it: the filled value of a row
  with date \<open>t\<close> is the raw value of the row of the same location with the most recent
  date \<open>\<le> t\<close> among those that have a value; it is missing when no row of the location
  with a date \<open>\<le> t\<close> has a value.
\<close>

definition filled_causally ::
  "'k list \<Rightarrow> int option list \<Rightarrow> 'a option list \<Rightarrow> 'a option list \<Rightarrow> bool" where
  "filled_causally loc dt raw filled \<longleftrightarrow>
     (\<forall>i < length raw. \<forall>t. dt ! i = Some t \<longrightarrow>
        (\<forall>j v d. j < length raw \<and> loc ! j = loc ! i \<and> dt ! j = Some d \<and> d \<le> t \<and> raw ! j = Some v
                  \<and> (\<forall>k e. k < length raw \<and> loc ! k = loc ! i \<and> dt ! k = Some e \<and> d < e \<and> e \<le> t
                        \<longrightarrow> raw ! k = None)
              \<longrightarrow> filled ! i = Some v)
      \<and> ((\<forall>j d. j < length raw \<and> loc ! j = loc ! i \<and> dt ! j = Some d \<and> d \<le> t \<longrightarrow> raw ! j = None)
              \<longrightarrow> filled ! i = None))"

text \<open>
  The scenario of the specification: a location with \<^verbatim>\<open>total_cases\<close> 100, missing,
  300 on three days, interleaved with a second location and a location outside the
  configured set.
\<close>

definition fill_example :: "row list" where
  "fill_example =
     [csv_row ''Kenya'' (Some 1) [(''total_cases'', Fin 100)],
      csv_row ''India'' (Some 1) [(''total_cases'', Fin 7)],
      csv_row ''France'' (Some 1) [(''total_cases'', Fin 9)],
      csv_row ''Kenya'' (Some 2) [],
      csv_row ''India'' (Some 2) [],
      csv_row ''Kenya'' (Some 3) [(''total_cases'', Fin 300)]]"

text \<open>Two rows of one location, the later date first.\<close>

definition unordered_example :: "row list" where
  "unordered_example =
     [csv_row ''Kenya'' (Some 2) [(''total_cases'', Fin 5)],
      csv_row ''Kenya'' (Some 1) []]"

text \<open>A location has at least one row with a date.\<close>

definition has_dated_row :: "dataframe \<Rightarrow> string \<Rightarrow> bool" where
  "has_dated_row df loc = (filter (\<lambda>(i, r). location r = loc \<and> date r \<noteq> None) (rows df) \<noteq> [])"

text \<open>The rows a frame holds for a location.\<close>

definition snapshot_entries :: "dataframe \<Rightarrow> string \<Rightarrow> (nat \<times> row) list" where
  "snapshot_entries S loc = filter (\<lambda>(i, r). location r = loc) (rows S)"

text \<open>One location with two rows on its greatest date.\<close>

definition tie_example :: "row list" where
  "tie_example =
     [csv_row ''Kenya'' (Some 5) [(''total_cases'', Fin 1)],
      csv_row ''Kenya'' (Some 5) [(''total_cases'', Fin 2)],
      csv_row ''Kenya'' (Some 4) [(''total_cases'', Fin 3)]]"

text \<open>
  The values of \<^verbatim>\<open>new_cases\<close> present in the rows of a location whose date lies in
  the window \<open>[max_date - 30, max_date]\<close>, in row order.
\<close>

definition window_values :: "dataframe \<Rightarrow> int \<Rightarrow> string \<Rightarrow> float64 list" where
  "window_values dfc max_date loc =
     present (map (\<lambda>(i, r). cells r ''new_cases'')
       (filter (\<lambda>(i, r). location r = loc
                  \<and> (case date r of None \<Rightarrow> False
                     | Some d \<Rightarrow> max_date - 30 \<le> d \<and> d \<le> max_date))
          (rows dfc)))"

text \<open>
  The mean of a non-empty list of float values, as the specification has it for numbers:
  their sum over their count. A list with one of the infinities has that infinity as its
  mean, and a list with both has none (NaN).
\<close>

definition fin_part :: "float64 \<Rightarrow> real" where
  "fin_part v = (case v of Fin x \<Rightarrow> x | PInf \<Rightarrow> 0 | NInf \<Rightarrow> 0)"

definition window_mean :: "float64 list \<Rightarrow> float64 option" where
  "window_mean vs =
     (if PInf \<in> set vs \<and> NInf \<in> set vs then None
      else if PInf \<in> set vs then Some PInf
      else if NInf \<in> set vs then Some NInf
      else Some (Fin (sum_list (map fin_part vs) / real (length vs))))"

text \<open>
  Kenya has two rows within 30 days of the greatest date of the whole table (day 100)
  and one before; India's only row (day 10) is outside that window.
\<close>

definition window_example :: "row list" where
  "window_example =
     [csv_row ''Kenya'' (Some 1) [(''new_cases'', Fin 5)],
      csv_row ''India'' (Some 10) [(''new_cases'', Fin 7)],
      csv_row ''Kenya'' (Some 80) [(''new_cases'', Fin 10)],
      csv_row ''Kenya'' (Some 100) [(''new_cases'', Fin 20)]]"

text \<open>A table without any row of a configured location.\<close>

definition no_match_example :: "row list" where
  "no_match_example = [csv_row ''France'' (Some 1) [(''total_cases'', Fin 9)]]"










section \<open>Properties of the series operations\<close>

lemma length_column [simp]: "length (column c L) = length (rows L)"
  by (simp add: column_def)

lemma length_locations [simp]: "length (locations L) = length (rows L)"
  by (simp add: locations_def)

lemma length_index [simp]: "length (index L) = length (rows L)"
  by (simp add: index_def)

lemma rows_set_column:
  assumes "length vs = length (rows L)"
  shows "rows (set_column c vs L) =
           map (\<lambda>k. (fst (rows L ! k),
                     (snd (rows L ! k))\<lparr>cells := (cells (snd (rows L ! k)))(c := vs ! k)\<rparr>))
             [0..<length (rows L)]"
  using assms
  by (intro nth_equalityI) (simp_all add: set_column_def split_beta)

lemma length_rate_values:
  "length num = length den \<Longrightarrow> length (rate_values num den) = length den"
  by (simp add: rate_values_def fillna_def np_where_def gt_scalar_def series_mul_def series_div_def)

lemma rate_values_nth:
  assumes "length num = length den" and "i < length den"
  shows "rate_values num den ! i =
           (case (if (case den ! i of None \<Rightarrow> False | Some d \<Rightarrow> Fin 0 < d)
                  then (case fdiv (case num ! i of None \<Rightarrow> Some (Fin 0) | Some n \<Rightarrow> Some n) (den ! i) of
                          None \<Rightarrow> None
                        | Some q \<Rightarrow> mul64 q 100)
                  else Some (Fin 0)) of
              None \<Rightarrow> Some (Fin 0)
            | Some v \<Rightarrow> Some v)"
  using assms
  by (simp add: rate_values_def fillna_def np_where_def gt_scalar_def series_mul_def
        series_div_def split: option.splits)

lemma rate_values_policy:
  assumes "length num = length den" and "i < length den"
  shows "safe_division_policy (num ! i) (den ! i) (rate_values num den ! i)"
proof -
  have "safe_division_policy n d
          (case (if (case d of None \<Rightarrow> False | Some d' \<Rightarrow> Fin 0 < d')
                 then (case fdiv (case n of None \<Rightarrow> Some (Fin 0) | Some n' \<Rightarrow> Some n') d of
                         None \<Rightarrow> None
                       | Some q \<Rightarrow> mul64 q 100)
                 else Some (Fin 0)) of
             None \<Rightarrow> Some (Fin 0)
           | Some v \<Rightarrow> Some v)" for n d
  proof (cases d)
    case None
    then show ?thesis by (simp add: safe_division_policy_def)
  next
    case (Some d')
    show ?thesis
    proof (cases "Fin 0 < d'")
      case False
      with Some show ?thesis by (simp add: safe_division_policy_def)
    next
      case True
      then have pos: "\<not> d' \<le> Fin 0" by (simp add: not_le)
      show ?thesis
      proof (cases n)
        case None
        with Some True pos show ?thesis
          by (cases d') (auto simp: safe_division_policy_def fdiv_def)
      next
        case n: (Some n')
        with Some True pos show ?thesis
          by (cases d'; cases n') (auto simp: safe_division_policy_def fdiv_def)
      qed
    qed
  qed
  then show ?thesis by (simp only: rate_values_nth[OF assms])
qed


lemma set_column_policy:
  assumes "num = column a L" and "den = column b L" and "c \<noteq> a" and "c \<noteq> b"
    and "(i, r) \<in> set (rows (set_column c (rate_values num den) L))"
  shows "safe_division_policy (cells r a) (cells r b) (cells r c)"
proof -
  have len: "length (rate_values num den) = length (rows L)"
    using assms(1,2) by (simp add: length_rate_values)
  from assms(5) obtain k where k: "k < length (rows L)"
    and r: "r = (snd (rows L ! k))\<lparr>cells := (cells (snd (rows L ! k)))(c := rate_values num den ! k)\<rparr>"
    unfolding rows_set_column[OF len] by auto
  have "num ! k = cells (snd (rows L ! k)) a" "den ! k = cells (snd (rows L ! k)) b"
    using k assms(1,2) by (simp_all add: column_def split: prod.splits)
  moreover have "safe_division_policy (num ! k) (den ! k) (rate_values num den ! k)"
    using rate_values_policy[of num den k] assms(1,2) k by simp
  ultimately show ?thesis using r assms(3,4) by simp
qed

section \<open>Safe division of the derived rates\<close>

text \<open>
  Claim C1, as the code has it. In the frame that query 2 (query 3) leaves, the column
  \<^verbatim>\<open>death_rate\<close> (\<^verbatim>\<open>vax_rate\<close>) of every row is never NaN; it is 0 when the row's
  denominator \<^verbatim>\<open>total_cases\<close> (\<^verbatim>\<open>population\<close>) is missing, zero or negative; and
  it is not negative when the row's numerator \<^verbatim>\<open>total_deaths\<close>
  (\<^verbatim>\<open>people_vaccinated\<close>) is missing or not negative. This holds for every frame, so
  for every snapshot.
\<close>

theorem snapshot_rates_safe_division:
  "(''total_deaths'' \<in> set (columns L) \<and> ''total_cases'' \<in> set (columns L) \<longrightarrow>
      (\<forall>(i, r) \<in> set (rows (fst (query2 L))).
         safe_division_policy (cells r ''total_deaths'') (cells r ''total_cases'')
           (cells r ''death_rate'')))
   \<and> (''people_vaccinated'' \<in> set (columns L) \<and> ''population'' \<in> set (columns L) \<longrightarrow>
      (\<forall>(i, r) \<in> set (rows (fst (query3 L))).
         safe_division_policy (cells r ''people_vaccinated'') (cells r ''population'')
           (cells r ''vax_rate'')))"
proof (intro conjI impI)
  assume "''total_deaths'' \<in> set (columns L) \<and> ''total_cases'' \<in> set (columns L)"
  then have "fst (query2 L) = set_column ''death_rate'' (death_rate L) L"
    by (simp add: query2_def Let_def)
  then show "\<forall>(i, r) \<in> set (rows (fst (query2 L))).
         safe_division_policy (cells r ''total_deaths'') (cells r ''total_cases'')
           (cells r ''death_rate'')"
    using set_column_policy[of "column ''total_deaths'' L" "''total_deaths''" L
        "column ''total_cases'' L" "''total_cases''" "''death_rate''"]
    by (auto simp: death_rate_def)
next
  assume "''people_vaccinated'' \<in> set (columns L) \<and> ''population'' \<in> set (columns L)"
  then have "fst (query3 L) = set_column ''vax_rate'' (vax_rate L) L"
    by (simp add: query3_def Let_def)
  then show "\<forall>(i, r) \<in> set (rows (fst (query3 L))).
         safe_division_policy (cells r ''people_vaccinated'') (cells r ''population'')
           (cells r ''vax_rate'')"
    using set_column_policy[of "column ''people_vaccinated'' L" "''people_vaccinated''" L
        "column ''population'' L" "''population''" "''vax_rate''"]
    by (auto simp: vax_rate_def)
qed

text \<open>
  The theorem at the snapshot of \<open>rates_example\<close>: India (no cases) has the rates 0 and
  0, Kenya 10 and 25.
\<close>

theorem snapshot_rates_safe_division_witness:
  "''total_deaths'' \<in> set (columns (snapshot rate_columns rates_example))
   \<and> ''total_cases'' \<in> set (columns (snapshot rate_columns rates_example))
   \<and> ''people_vaccinated'' \<in> set (columns (snapshot rate_columns rates_example))
   \<and> ''population'' \<in> set (columns (snapshot rate_columns rates_example))
   \<and> list_all (\<lambda>(i, r). safe_division_policy (cells r ''total_deaths'') (cells r ''total_cases'')
                              (cells r ''death_rate''))
        (rows (fst (query2 (snapshot rate_columns rates_example))))
   \<and> list_all (\<lambda>(i, r). safe_division_policy (cells r ''people_vaccinated'') (cells r ''population'')
                              (cells r ''vax_rate''))
        (rows (fst (query3 (snapshot rate_columns rates_example))))
   \<and> locations (snapshot rate_columns rates_example) = [''India'', ''Kenya'']
   \<and> column ''death_rate'' (fst (query2 (snapshot rate_columns rates_example)))
        = [Some (Fin 0), Some (Fin 10)]
   \<and> column ''vax_rate'' (fst (query3 (snapshot rate_columns rates_example)))
        = [Some (Fin 0), Some (Fin 25)]"
proof -
  have cols: "columns (snapshot rate_columns rates_example) = rate_columns"
    by code_simp
  have mem: "''total_deaths'' \<in> set rate_columns" "''total_cases'' \<in> set rate_columns"
    "''people_vaccinated'' \<in> set rate_columns" "''population'' \<in> set rate_columns"
    by (simp_all add: rate_columns_def)
  have vals: "locations (snapshot rate_columns rates_example) = [''India'', ''Kenya'']"
    "column ''death_rate'' (fst (query2 (snapshot rate_columns rates_example)))
        = [Some (Fin 0), Some (Fin 10)]"
    "column ''vax_rate'' (fst (query3 (snapshot rate_columns rates_example)))
        = [Some (Fin 0), Some (Fin 25)]"
    by code_simp+
  show ?thesis
    using snapshot_rates_safe_division[of "snapshot rate_columns rates_example"] mem vals
    unfolding cols list_all_iff by simp
qed

text \<open>
  The claim as stated fails twice: over 100 cases, \<open>- 5\<close> deaths give the negative rate
  \<open>- 5\<close>, and an infinite count of deaths gives an infinite rate, which the final
  \<^verbatim>\<open>fillna(0)\<close> leaves as it is.
\<close>

theorem rate_negative_infinite_counterexample:
  "column ''death_rate'' (fst (query2 (snapshot rate_columns negative_deaths_example)))
     = [Some (Fin (- 5))]
   \<and> column ''death_rate'' (fst (query2 (snapshot rate_columns infinite_deaths_example)))
     = [Some PInf]"
  by code_simp

section \<open>Forward fill\<close>

lemma last_present_append:
  "last_present (xs @ ys) = (case last_present ys of None \<Rightarrow> last_present xs | Some v \<Rightarrow> Some v)"
  by (induction xs) (auto split: option.splits)

lemma last_present_None_iff: "last_present xs = None \<longleftrightarrow> (\<forall>x \<in> set xs. x = None)"
  by (induction xs) (auto split: option.splits)

lemma length_ffill_from [simp]: "length (ffill_from l xs) = length xs"
  by (induction l xs rule: ffill_from.induct) auto

lemma ffill_from_nth:
  "n < length xs \<Longrightarrow>
     ffill_from l xs ! n = (case last_present (take (Suc n) xs) of None \<Rightarrow> l | Some v \<Rightarrow> Some v)"
proof (induction l xs arbitrary: n rule: ffill_from.induct)
  case (1 last_seen)
  then show ?case by simp
next
  case (2 last_seen xs)
  then show ?case by (cases n) (auto split: option.splits)
next
  case (3 last_seen v xs)
  then show ?case by (cases n) (auto split: option.splits)
qed

lemma ffill_nth:
  "n < length xs \<Longrightarrow> ffill xs ! n = last_present (take (Suc n) xs)"
  by (simp add: ffill_def ffill_from_nth split: option.splits)

lemma filter_take_prefix:
  "filter P (take n xs) = take (length (filter P (take n xs))) (filter P xs)"
proof (induction xs arbitrary: n)
  case Nil
  then show ?case by simp
next
  case (Cons x xs)
  show ?case
  proof (cases n)
    case 0
    then show ?thesis by simp
  next
    case (Suc m)
    with Cons[of m] show ?thesis by auto
  qed
qed

lemma length_filter_zip_fst:
  "length ks = length vs \<Longrightarrow>
     length (filter (\<lambda>(k', v). k' = k) (zip ks vs)) = length (filter (\<lambda>k'. k' = k) ks)"
  by (induction ks vs rule: list_induct2) auto

lemma group_values_take:
  assumes "length ks = length vs" and "i < length vs"
  shows "take (Suc (group_pos ks i)) (group_values ks vs (ks ! i)) =
           group_values (take (Suc i) ks) (take (Suc i) vs) (ks ! i)"
proof -
  let ?P = "\<lambda>(k', v). k' = ks ! i"
  have pre: "take (Suc i) (zip ks vs) = zip (take (Suc i) ks) (take (Suc i) vs)"
    by (simp add: take_zip)
  have "length (filter ?P (zip (take (Suc i) ks) (take (Suc i) vs)))
          = length (filter (\<lambda>k'. k' = ks ! i) (take (Suc i) ks))"
    using assms by (intro length_filter_zip_fst) simp
  also have "\<dots> = Suc (group_pos ks i)"
    using assms by (simp add: take_Suc_conv_app_nth group_pos_def)
  finally have len: "length (filter ?P (take (Suc i) (zip ks vs))) = Suc (group_pos ks i)"
    using pre by simp
  have "filter ?P (take (Suc i) (zip ks vs))
          = take (Suc (group_pos ks i)) (filter ?P (zip ks vs))"
    using filter_take_prefix[of ?P "Suc i" "zip ks vs"] len by simp
  then show ?thesis
    by (simp add: group_values_def pre take_map)
qed

lemma length_groupby_transform [simp]: "length (groupby_transform f ks vs) = length vs"
  by (simp add: groupby_transform_def)

lemma groupby_ffill_nth:
  assumes "length ks = length vs" and "i < length vs"
  shows "groupby_transform ffill ks vs ! i =
           last_present (group_values (take (Suc i) ks) (take (Suc i) vs) (ks ! i))"
proof -
  have eq: "take (Suc (group_pos ks i)) (group_values ks vs (ks ! i)) =
           group_values (take (Suc i) ks) (take (Suc i) vs) (ks ! i)"
    by (rule group_values_take[OF assms])
  have "length (group_values (take (Suc i) ks) (take (Suc i) vs) (ks ! i)) = Suc (group_pos ks i)"
    using assms
    by (simp add: group_values_def length_filter_zip_fst take_Suc_conv_app_nth group_pos_def)
  with eq have "group_pos ks i < length (group_values ks vs (ks ! i))"
    by (metis length_take lessI min_less_iff_conj)
  then show ?thesis
    using assms eq by (simp add: groupby_transform_def ffill_nth)
qed

lemma set_group_values_take:
  assumes "length ks = length vs"
  shows "set (group_values (take n ks) (take n vs) k) = {vs ! m | m. m < n \<and> m < length vs \<and> ks ! m = k}"
  using assms
  by (auto simp: group_values_def set_zip image_iff) force+

lemma group_values_take_Suc:
  assumes "length ks = length vs" and "i < length vs"
  shows "group_values (take (Suc i) ks) (take (Suc i) vs) (ks ! i) =
           group_values (take i ks) (take i vs) (ks ! i) @ [vs ! i]"
  using assms by (simp add: group_values_def take_Suc_conv_app_nth)

lemma groupby_ffill_None:
  assumes "length ks = length vs" and "i < length vs"
    and "groupby_transform ffill ks vs ! i = None"
    and "m \<le> i" and "ks ! m = ks ! i"
  shows "vs ! m = None" and "groupby_transform ffill ks vs ! m = None"
proof -
  have all: "\<forall>x \<in> set (group_values (take (Suc i) ks) (take (Suc i) vs) (ks ! i)). x = None"
    using assms(1,2,3) by (simp add: groupby_ffill_nth last_present_None_iff)
  have mem: "\<And>m'. m' \<le> i \<Longrightarrow> ks ! m' = ks ! i \<Longrightarrow> vs ! m' = None"
  proof -
    fix m' assume "m' \<le> i" "ks ! m' = ks ! i"
    then have "vs ! m' \<in> set (group_values (take (Suc i) ks) (take (Suc i) vs) (ks ! i))"
      unfolding set_group_values_take[OF assms(1)] using assms(2) by auto
    with all show "vs ! m' = None" by blast
  qed
  show "vs ! m = None" using mem assms(4,5) by blast
  have "\<forall>x \<in> set (group_values (take (Suc m) ks) (take (Suc m) vs) (ks ! m)). x = None"
    unfolding set_group_values_take[OF assms(1)] using mem assms(4,5) by auto
  then show "groupby_transform ffill ks vs ! m = None"
    using assms(1,2,4) by (simp add: groupby_ffill_nth last_present_None_iff)
qed

lemma groupby_ffill_idem:
  assumes "length ks = length vs"
  shows "groupby_transform ffill ks (groupby_transform ffill ks vs) = groupby_transform ffill ks vs"
proof (rule nth_equalityI)
  show "length (groupby_transform ffill ks (groupby_transform ffill ks vs))
          = length (groupby_transform ffill ks vs)" by simp
next
  fix i assume "i < length (groupby_transform ffill ks (groupby_transform ffill ks vs))"
  then have i: "i < length vs" by simp
  let ?G = "groupby_transform ffill ks vs"
  have len: "length ks = length ?G" using assms by simp
  have step: "groupby_transform ffill ks ?G ! i =
      (case ?G ! i of None \<Rightarrow> last_present (group_values (take i ks) (take i ?G) (ks ! i))
       | Some v \<Rightarrow> Some v)"
    using i len by (simp add: groupby_ffill_nth group_values_take_Suc last_present_append)
  show "groupby_transform ffill ks ?G ! i = ?G ! i"
  proof (cases "?G ! i")
    case (Some v)
    with step show ?thesis by simp
  next
    case None
    have "\<forall>x \<in> set (group_values (take i ks) (take i ?G) (ks ! i)). x = None"
      unfolding set_group_values_take[OF len]
      using groupby_ffill_None(2)[OF assms i None] by auto
    then have "last_present (group_values (take i ks) (take i ?G) (ks ! i)) = None"
      by (simp add: last_present_None_iff)
    with step None show ?thesis by simp
  qed
qed

lemma columns_set_column_present:
  "c \<in> set (columns df) \<Longrightarrow> columns (set_column c vs df) = columns df"
  by (simp add: set_column_def)

lemma length_rows_set_column:
  "length vs = length (rows df) \<Longrightarrow> length (rows (set_column c vs df)) = length (rows df)"
  by (simp add: set_column_def)

lemma locations_set_column:
  "length vs = length (rows df) \<Longrightarrow> locations (set_column c vs df) = locations df"
  by (intro nth_equalityI) (simp_all add: locations_def rows_set_column split_beta)

lemma index_set_column:
  "length vs = length (rows df) \<Longrightarrow> index (set_column c vs df) = index df"
  by (intro nth_equalityI) (simp_all add: index_def rows_set_column split_beta)

lemma dates_set_column:
  "length vs = length (rows df) \<Longrightarrow> dates (set_column c vs df) = dates df"
  by (intro nth_equalityI) (simp_all add: dates_def rows_set_column split_beta)

lemma column_set_column:
  "length vs = length (rows df) \<Longrightarrow>
     column c' (set_column c vs df) = (if c' = c then vs else column c' df)"
  by (intro nth_equalityI) (simp_all add: column_def rows_set_column split_beta)

lemma set_column_twice:
  assumes "length vs = length (rows df)" and "length ws = length (rows df)"
  shows "set_column c vs (set_column c ws df) = set_column c vs df"
proof -
  have "rows (set_column c vs (set_column c ws df)) = rows (set_column c vs df)"
    using assms
    by (intro nth_equalityI) (simp_all add: rows_set_column length_rows_set_column)
  moreover have "columns (set_column c vs (set_column c ws df)) = columns (set_column c vs df)"
    by (simp add: set_column_def)
  ultimately show ?thesis by simp
qed

lemma set_column_commute:
  assumes "length vs = length (rows df)" and "length ws = length (rows df)"
    and "c \<noteq> c'" and "c \<in> set (columns df)" and "c' \<in> set (columns df)"
  shows "set_column c vs (set_column c' ws df) = set_column c' ws (set_column c vs df)"
proof -
  have "rows (set_column c vs (set_column c' ws df)) = rows (set_column c' ws (set_column c vs df))"
    using assms(1,2,3)
    by (intro nth_equalityI)
       (simp_all add: rows_set_column length_rows_set_column fun_upd_twist)
  moreover have "columns (set_column c vs (set_column c' ws df))
                   = columns (set_column c' ws (set_column c vs df))"
    using assms(4,5) by (simp add: set_column_def)
  ultimately show ?thesis by simp
qed

lemma fill_metric_present:
  "metric \<in> set (columns df) \<Longrightarrow>
     fill_metric metric df =
       set_column metric (groupby_transform ffill (locations df) (column metric df)) df"
  by (simp add: fill_metric_def)

lemma columns_fill_metric [simp]: "columns (fill_metric metric df) = columns df"
  by (simp add: fill_metric_def columns_set_column_present)

lemma length_rows_fill_metric [simp]: "length (rows (fill_metric metric df)) = length (rows df)"
  by (simp add: fill_metric_def length_rows_set_column)

lemma locations_fill_metric [simp]: "locations (fill_metric metric df) = locations df"
  by (simp add: fill_metric_def locations_set_column)

lemma index_fill_metric [simp]: "index (fill_metric metric df) = index df"
  by (simp add: fill_metric_def index_set_column)

lemma dates_fill_metric [simp]: "dates (fill_metric metric df) = dates df"
  by (simp add: fill_metric_def dates_set_column)

lemma column_fill_metric:
  "column c (fill_metric metric df) =
     (if c = metric \<and> metric \<in> set (columns df)
      then groupby_transform ffill (locations df) (column metric df)
      else column c df)"
  by (simp add: fill_metric_def column_set_column)

lemma fill_metric_idem: "fill_metric metric (fill_metric metric df) = fill_metric metric df"
proof (cases "metric \<in> set (columns df)")
  case True
  let ?g = "groupby_transform ffill (locations df) (column metric df)"
  have "fill_metric metric (fill_metric metric df)
          = set_column metric (groupby_transform ffill (locations df) ?g) (fill_metric metric df)"
    using True by (simp add: fill_metric_present[of metric "fill_metric metric df"] column_fill_metric)
  also have "\<dots> = set_column metric ?g (set_column metric ?g df)"
    using True by (simp add: groupby_ffill_idem fill_metric_present)
  also have "\<dots> = set_column metric ?g df"
    by (simp add: set_column_twice)
  finally show ?thesis using True by (simp add: fill_metric_present)
next
  case False
  then show ?thesis by (simp add: fill_metric_def)
qed

lemma fill_metric_commute:
  "fill_metric a (fill_metric b df) = fill_metric b (fill_metric a df)"
proof (cases "a = b")
  case True
  then show ?thesis by simp
next
  case ab: False
  show ?thesis
  proof (cases "a \<in> set (columns df) \<and> b \<in> set (columns df)")
    case True
    let ?ga = "groupby_transform ffill (locations df) (column a df)"
    let ?gb = "groupby_transform ffill (locations df) (column b df)"
    have step: "fill_metric x (fill_metric y df) =
        set_column x (groupby_transform ffill (locations df) (column x df))
          (set_column y (groupby_transform ffill (locations df) (column y df)) df)"
      if "x \<in> set (columns df)" "y \<in> set (columns df)" "x \<noteq> y" for x y
    proof -
      have "fill_metric x (fill_metric y df) =
          set_column x (groupby_transform ffill (locations (fill_metric y df))
                          (column x (fill_metric y df))) (fill_metric y df)"
        using that by (intro fill_metric_present) simp
      also have "column x (fill_metric y df) = column x df"
        using that by (simp add: column_fill_metric)
      finally show ?thesis using that by (simp add: fill_metric_present locations_set_column)
    qed
    have "fill_metric a (fill_metric b df) = set_column a ?ga (set_column b ?gb df)"
      using step[of a b] True ab by simp
    moreover have "fill_metric b (fill_metric a df) = set_column b ?gb (set_column a ?ga df)"
      using step[of b a] True ab by simp
    ultimately show ?thesis
      using True ab by (simp add: set_column_commute)
  next
    case False
    have absent: "\<And>m d. m \<notin> set (columns d) \<Longrightarrow> fill_metric m d = d"
      by (simp add: fill_metric_def)
    from False consider "a \<notin> set (columns df)" | "b \<notin> set (columns df)" by blast
    then show ?thesis
    proof cases
      case 1
      then have "a \<notin> set (columns (fill_metric b df))" by simp
      with 1 show ?thesis by (simp add: absent)
    next
      case 2
      then have "b \<notin> set (columns (fill_metric a df))" by simp
      with 2 show ?thesis by (simp add: absent)
    qed
  qed
qed

lemma fold_commute_step:
  assumes "\<And>a b x. f a (f b x) = f b (f a x)"
  shows "f a (fold f xs x) = fold f xs (f a x)"
  by (induction xs arbitrary: x) (simp_all add: assms)

lemma fold_idem:
  assumes idem: "\<And>a x. f a (f a x) = f a x"
    and comm: "\<And>a b x. f a (f b x) = f b (f a x)"
  shows "fold f xs (fold f xs x) = fold f xs x"
proof (induction xs arbitrary: x)
  case Nil
  then show ?case by simp
next
  case (Cons a xs)
  have "fold f (a # xs) (fold f (a # xs) x) = fold f xs (f a (fold f xs (f a x)))" by simp
  also have "\<dots> = fold f xs (fold f xs (f a (f a x)))"
    by (simp add: fold_commute_step[where f = f, OF comm])
  also have "\<dots> = fold f xs (f a x)" by (simp add: idem Cons.IH)
  finally show ?case by simp
qed

lemma fold_absorb:
  assumes idem: "\<And>a x. f a (f a x) = f a x"
    and comm: "\<And>a b x. f a (f b x) = f b (f a x)"
    and "a \<in> set xs"
  shows "f a (fold f xs x) = fold f xs x"
  using assms(3)
proof (induction xs arbitrary: x)
  case Nil
  then show ?case by simp
next
  case (Cons b xs)
  show ?case
  proof (cases "a = b")
    case True
    then show ?thesis by (simp add: fold_commute_step[where f = f, OF comm] idem)
  next
    case False
    with Cons show ?thesis by simp
  qed
qed

text \<open>
  Claim C6. Filling the key metrics of an already filled frame changes nothing, and so
  does the fill of any single key metric. This holds for every frame, so for the
  filtered frame of every input.
\<close>

theorem forward_fill_idempotent:
  "fill_key_metrics (fill_key_metrics df) = fill_key_metrics df
   \<and> list_all (\<lambda>metric. fill_metric metric (fill_key_metrics df) = fill_key_metrics df) key_metrics"
proof
  show "fill_key_metrics (fill_key_metrics df) = fill_key_metrics df"
    unfolding fill_key_metrics_def
    by (rule fold_idem) (simp_all add: fill_metric_idem fill_metric_commute)
  show "list_all (\<lambda>metric. fill_metric metric (fill_key_metrics df) = fill_key_metrics df) key_metrics"
    unfolding fill_key_metrics_def list_all_iff
    by (intro ballI fold_absorb) (simp_all add: fill_metric_idem fill_metric_commute)
qed

lemma group_values_index:
  assumes "length ks = length vs"
  shows "n \<le> length vs \<Longrightarrow>
           group_values (take n ks) (take n vs) k = map ((!) vs) (filter (\<lambda>m. ks ! m = k) [0..<n])"
proof (induction n)
  case 0
  then show ?case by (simp add: group_values_def)
next
  case (Suc n)
  then have "group_values (take (Suc n) ks) (take (Suc n) vs) k =
      group_values (take n ks) (take n vs) k @ (if ks ! n = k then [vs ! n] else [])"
    using assms by (simp add: group_values_def take_Suc_conv_app_nth)
  with Suc show ?case by simp
qed

lemma last_present_index_Some:
  "j < n \<Longrightarrow> P j \<Longrightarrow> f j = Some v \<Longrightarrow> (\<forall>k. j < k \<and> k < n \<and> P k \<longrightarrow> f k = None) \<Longrightarrow>
     last_present (map f (filter P [0..<n])) = Some v"
proof (induction n)
  case 0
  then show ?case by simp
next
  case (Suc n)
  show ?case
  proof (cases "j = n")
    case True
    with Suc.prems show ?thesis by (simp add: last_present_append)
  next
    case False
    with Suc.prems have "j < n" by simp
    moreover have "\<forall>k. j < k \<and> k < n \<and> P k \<longrightarrow> f k = None" using Suc.prems(4) by simp
    ultimately have "last_present (map f (filter P [0..<n])) = Some v"
      using Suc.IH Suc.prems(2,3) by blast
    moreover have "P n \<Longrightarrow> f n = None" using Suc.prems(4) \<open>j < n\<close> by simp
    ultimately show ?thesis by (simp add: last_present_append)
  qed
qed

lemma last_present_index_None:
  "(\<forall>j < n. P j \<longrightarrow> f j = None) \<Longrightarrow> last_present (map f (filter P [0..<n])) = None"
  by (auto simp: last_present_None_iff)

lemma groupby_ffill_row_order:
  assumes "length ks = length vs"
  shows "filled_in_row_order ks vs (groupby_transform ffill ks vs)"
  unfolding filled_in_row_order_def
proof (intro allI impI conjI)
  fix i j v
  assume i: "i < length vs"
    and h: "j \<le> i \<and> ks ! j = ks ! i \<and> vs ! j = Some v
             \<and> (\<forall>k. j < k \<and> k \<le> i \<and> ks ! k = ks ! i \<longrightarrow> vs ! k = None)"
  have "last_present (map ((!) vs) (filter (\<lambda>m. ks ! m = ks ! i) [0..<Suc i])) = Some v"
    using h by (intro last_present_index_Some[of j]) auto
  then show "groupby_transform ffill ks vs ! i = Some v"
    using assms i by (simp add: groupby_ffill_nth group_values_index)
next
  fix i
  assume i: "i < length vs" and h: "\<forall>j \<le> i. ks ! j = ks ! i \<longrightarrow> vs ! j = None"
  have "last_present (map ((!) vs) (filter (\<lambda>m. ks ! m = ks ! i) [0..<Suc i])) = None"
    using h by (intro last_present_index_None) auto
  then show "groupby_transform ffill ks vs ! i = None"
    using assms i by (simp add: groupby_ffill_nth group_values_index)
qed

lemma row_order_causal:
  assumes "length loc = length raw" and "length dt = length raw"
    and ro: "filled_in_row_order loc raw filled" and asc: "dates_ascending loc dt"
  shows "filled_causally loc dt raw filled"
  unfolding filled_causally_def
proof (intro allI impI conjI)
  fix i t j v d
  assume i: "i < length raw" and t: "dt ! i = Some t"
    and h: "j < length raw \<and> loc ! j = loc ! i \<and> dt ! j = Some d \<and> d \<le> t \<and> raw ! j = Some v
             \<and> (\<forall>k e. k < length raw \<and> loc ! k = loc ! i \<and> dt ! k = Some e \<and> d < e \<and> e \<le> t
                    \<longrightarrow> raw ! k = None)"
  have order: "\<And>a b. a < b \<Longrightarrow> b < length raw \<Longrightarrow> loc ! a = loc ! b \<Longrightarrow>
                 \<exists>x y. dt ! a = Some x \<and> dt ! b = Some y \<and> x < y"
    using asc assms(1) unfolding dates_ascending_def by auto
  have ji: "j \<le> i"
  proof (rule ccontr)
    assume "\<not> j \<le> i"
    then have "i < j" by simp
    from order[OF this] h t show False by auto
  qed
  have "\<forall>k. j < k \<and> k \<le> i \<and> loc ! k = loc ! i \<longrightarrow> raw ! k = None"
  proof (intro allI impI)
    fix k assume k: "j < k \<and> k \<le> i \<and> loc ! k = loc ! i"
    then have "k < length raw" using i by simp
    from order[of j k] k h this obtain e where e: "dt ! k = Some e" "d < e" by auto
    have "e \<le> t"
    proof (cases "k = i")
      case True
      with e t show ?thesis by simp
    next
      case False
      with k have "k < i" by simp
      from order[OF this i] k e t show ?thesis by auto
    qed
    with h k e \<open>k < length raw\<close> show "raw ! k = None" by blast
  qed
  with ro i h ji show "filled ! i = Some v"
    unfolding filled_in_row_order_def by blast
next
  fix i t
  assume i: "i < length raw" and t: "dt ! i = Some t"
    and h: "\<forall>j d. j < length raw \<and> loc ! j = loc ! i \<and> dt ! j = Some d \<and> d \<le> t \<longrightarrow> raw ! j = None"
  have order: "\<And>a b. a < b \<Longrightarrow> b < length raw \<Longrightarrow> loc ! a = loc ! b \<Longrightarrow>
                 \<exists>x y. dt ! a = Some x \<and> dt ! b = Some y \<and> x < y"
    using asc assms(1) unfolding dates_ascending_def by auto
  have "\<forall>j \<le> i. loc ! j = loc ! i \<longrightarrow> raw ! j = None"
  proof (intro allI impI)
    fix j assume j: "j \<le> i" "loc ! j = loc ! i"
    show "raw ! j = None"
    proof (cases "j = i")
      case True
      with h i t show ?thesis by simp
    next
      case False
      with j have "j < i" by simp
      from order[OF this i j(2)] t obtain d where "dt ! j = Some d" "d < t" by auto
      with h j i show ?thesis by auto
    qed
  qed
  with ro i show "filled ! i = None"
    unfolding filled_in_row_order_def by blast
qed

lemma fold_fill_metric_frame [simp]:
  "columns (fold fill_metric ms df) = columns df"
  "locations (fold fill_metric ms df) = locations df"
  "dates (fold fill_metric ms df) = dates df"
  "index (fold fill_metric ms df) = index df"
  by (induction ms arbitrary: df) simp_all

lemma column_fold_fill_metric:
  "column c (fold fill_metric ms df) =
     (if c \<in> set ms \<and> c \<in> set (columns df)
      then groupby_transform ffill (locations df) (column c df)
      else column c df)"
proof (induction ms arbitrary: df)
  case Nil
  then show ?case by simp
next
  case (Cons m ms)
  show ?case
    by (auto simp: Cons.IH[of "fill_metric m df"] column_fill_metric groupby_ffill_idem)
qed

text \<open>
  Claim C2, as the code has it. The fill keeps locations and dates and works in row
  order, within a location: a filled value is the raw value of the nearest row at or
  before it, of the same location, that has one, and stays missing when there is none.
  When every location's rows are in strictly ascending date order, this is the most
  recent raw value at a date \<open>\<le> t\<close>, as the claim says.
\<close>

theorem forward_fill_causality:
  assumes "metric \<in> set key_metrics" and "metric \<in> set (columns df)"
  shows "locations (fill_key_metrics df) = locations df
       \<and> dates (fill_key_metrics df) = dates df
       \<and> filled_in_row_order (locations df) (column metric df)
            (column metric (fill_key_metrics df))
       \<and> (dates_ascending (locations df) (dates df) \<longrightarrow>
            filled_causally (locations df) (dates df) (column metric df)
              (column metric (fill_key_metrics df)))"
proof -
  have col: "column metric (fill_key_metrics df)
               = groupby_transform ffill (locations df) (column metric df)"
    using assms by (simp add: fill_key_metrics_def column_fold_fill_metric)
  have ro: "filled_in_row_order (locations df) (column metric df)
            (column metric (fill_key_metrics df))"
    unfolding col by (rule groupby_ffill_row_order) simp
  moreover have "filled_causally (locations df) (dates df) (column metric df)
              (column metric (fill_key_metrics df))"
    if "dates_ascending (locations df) (dates df)"
    using ro that by (intro row_order_causal) (simp_all add: dates_def)
  ultimately show ?thesis
    by (simp add: fill_key_metrics_def)
qed

lemma filled_causally_NoneD:
  assumes "filled_causally loc dt raw filled" and "i < length raw" and "dt ! i = Some t"
    and "\<And>j d. j < length raw \<Longrightarrow> loc ! j = loc ! i \<Longrightarrow> dt ! j = Some d \<Longrightarrow> d \<le> t
           \<Longrightarrow> raw ! j = None"
  shows "filled ! i = None"
  using assms unfolding filled_causally_def by blast

text \<open>The theorem at \<open>fill_example\<close>: 100, missing, 300 is filled to 100, 100, 300.\<close>

theorem forward_fill_causality_witness:
  "''total_cases'' \<in> set key_metrics
   \<and> ''total_cases'' \<in> set (columns (df_countries (read_csv [''total_cases''] fill_example)))
   \<and> dates_ascending (locations (df_countries (read_csv [''total_cases''] fill_example)))
        (dates (df_countries (read_csv [''total_cases''] fill_example)))
   \<and> filled_causally (locations (df_countries (read_csv [''total_cases''] fill_example)))
        (dates (df_countries (read_csv [''total_cases''] fill_example)))
        (column ''total_cases'' (df_countries (read_csv [''total_cases''] fill_example)))
        (column ''total_cases'' (filled_series [''total_cases''] fill_example))
   \<and> locations (filled_series [''total_cases''] fill_example)
        = [''Kenya'', ''India'', ''Kenya'', ''India'', ''Kenya'']
   \<and> column ''total_cases'' (filled_series [''total_cases''] fill_example)
        = [Some (Fin 100), Some (Fin 7), Some (Fin 100), Some (Fin 7), Some (Fin 300)]"
proof -
  let ?df = "df_countries (read_csv [''total_cases''] fill_example)"
  have m: "''total_cases'' \<in> set key_metrics" by (simp add: key_metrics_def)
  have c: "''total_cases'' \<in> set (columns ?df)" by (simp add: df_countries_def read_csv_def)
  have loc: "locations ?df = [''Kenya'', ''India'', ''Kenya'', ''India'', ''Kenya'']"
    by code_simp
  have dt: "dates ?df = [Some 1, Some 1, Some 2, Some 2, Some 3]"
    by code_simp
  have asc: "dates_ascending (locations ?df) (dates ?df)"
    unfolding loc dt dates_ascending_def
    by (simp add: less_Suc_eq numeral_nat nth_Cons')
  have val: "column ''total_cases'' (filled_series [''total_cases''] fill_example)
        = [Some (Fin 100), Some (Fin 7), Some (Fin 100), Some (Fin 7), Some (Fin 300)]"
    by code_simp
  show ?thesis
    using forward_fill_causality[OF m c] asc m c loc val
    by (simp add: filled_series_def)
qed

text \<open>
  The claim as stated fails when rows are not in date order: in \<open>unordered_example\<close>
  the row of day 1 is filled with the value of day 2, which stands before it in the file.
\<close>

theorem forward_fill_later_date_counterexample:
  "\<not> filled_causally (locations (df_countries (read_csv [''total_cases''] unordered_example)))
        (dates (df_countries (read_csv [''total_cases''] unordered_example)))
        (column ''total_cases'' (df_countries (read_csv [''total_cases''] unordered_example)))
        (column ''total_cases'' (filled_series [''total_cases''] unordered_example))"
proof
  let ?df = "df_countries (read_csv [''total_cases''] unordered_example)"
  have loc: "locations ?df = [''Kenya'', ''Kenya'']" by code_simp
  have dt: "dates ?df = [Some 2, Some 1]" by code_simp
  have raw: "column ''total_cases'' ?df = [Some (Fin 5), None]" by code_simp
  have val: "column ''total_cases'' (filled_series [''total_cases''] unordered_example)
               = [Some (Fin 5), Some (Fin 5)]" by code_simp
  assume "filled_causally (locations ?df) (dates ?df) (column ''total_cases'' ?df)
        (column ''total_cases'' (filled_series [''total_cases''] unordered_example))"
  then have h: "filled_causally [''Kenya'', ''Kenya''] [Some 2, Some (1::int)] [Some (Fin 5), None]
                 [Some (Fin 5), Some (Fin 5)]"
    unfolding loc dt raw val .
  have "[Some (Fin 5), Some (Fin 5)] ! 1 = None"
    using h
  proof (rule filled_causally_NoneD[where i = 1 and t = 1])
    fix j and d :: int
    assume "j < length [Some (Fin 5), None]" and "[Some 2, Some 1] ! j = Some d" and "d \<le> 1"
    then show "[Some (Fin 5), None] ! j = None"
      by (cases j) auto
  qed simp_all
  then show False by simp
qed

text \<open>Idempotence at the filled \<open>fill_example\<close>.\<close>

theorem forward_fill_idempotent_witness:
  "fill_key_metrics (filled_series [''total_cases''] fill_example)
     = filled_series [''total_cases''] fill_example
   \<and> column ''total_cases'' (fill_key_metrics (filled_series [''total_cases''] fill_example))
        = [Some (Fin 100), Some (Fin 7), Some (Fin 100), Some (Fin 7), Some (Fin 300)]"
proof -
  have val: "column ''total_cases'' (filled_series [''total_cases''] fill_example)
        = [Some (Fin 100), Some (Fin 7), Some (Fin 100), Some (Fin 7), Some (Fin 300)]"
    by code_simp
  show ?thesis
    using forward_fill_idempotent[of "df_countries (read_csv [''total_cases''] fill_example)"] val
    by (simp add: filled_series_def)
qed

section \<open>The latest snapshot\<close>

lemma idxmax_from_split:
  "idxmax_from best xs = Some (l, v) \<Longrightarrow>
     (best = Some (l, v) \<and> (\<forall>(l', x) \<in> set xs. \<forall>w. x = Some w \<longrightarrow> w \<le> v))
   \<or> (\<exists>ys zs. xs = ys @ (l, Some v) # zs
          \<and> (\<forall>bl bv. best = Some (bl, bv) \<longrightarrow> bv < v)
          \<and> (\<forall>(l', x) \<in> set ys. \<forall>w. x = Some w \<longrightarrow> w < v)
          \<and> (\<forall>(l', x) \<in> set zs. \<forall>w. x = Some w \<longrightarrow> w \<le> v))"
proof (induction best xs rule: idxmax_from.induct)
  case (1 best)
  then show ?case by simp
next
  case (2 best l0 xs)
  from 2 have "idxmax_from best xs = Some (l, v)" by simp
  from "2.IH"[OF this] show ?case
  proof (elim disjE exE conjE)
    assume "best = Some (l, v)" "\<forall>(l', x) \<in> set xs. \<forall>w. x = Some w \<longrightarrow> w \<le> v"
    then show ?thesis by auto
  next
    fix ys zs
    assume h: "xs = ys @ (l, Some v) # zs" "\<forall>bl bv. best = Some (bl, bv) \<longrightarrow> bv < v"
      "\<forall>(l', x) \<in> set ys. \<forall>w. x = Some w \<longrightarrow> w < v"
      "\<forall>(l', x) \<in> set zs. \<forall>w. x = Some w \<longrightarrow> w \<le> v"
    then have "(l0, None) # xs = ((l0, None) # ys) @ (l, Some v) # zs
        \<and> (\<forall>(l', x) \<in> set ((l0, None) # ys). \<forall>w. x = Some w \<longrightarrow> w < v)" by auto
    with h show ?thesis by blast
  qed
next
  case (3 best l0 u xs)
  let ?b = "case best of None \<Rightarrow> Some (l0, u)
            | Some (bl, bv) \<Rightarrow> if bv < u then Some (l0, u) else Some (bl, bv)"
  from 3 have "idxmax_from ?b xs = Some (l, v)" by simp
  from "3.IH"[OF this] show ?case
  proof (elim disjE exE conjE)
    assume b: "?b = Some (l, v)" and le: "\<forall>(l', x) \<in> set xs. \<forall>w. x = Some w \<longrightarrow> w \<le> v"
    show ?thesis
    proof (cases "best = Some (l, v) \<and> u \<le> v")
      case True
      with le show ?thesis by auto
    next
      case False
      with b have "l0 = l \<and> u = v \<and> (\<forall>bl bv. best = Some (bl, bv) \<longrightarrow> bv < v)"
        by (auto split: option.splits if_splits)
      then have "(l0, Some u) # xs = [] @ (l, Some v) # xs
                   \<and> (\<forall>bl bv. best = Some (bl, bv) \<longrightarrow> bv < v)" by simp
      with le show ?thesis by (intro disjI2 exI[of _ "[]"] exI[of _ xs]) simp
    qed
  next
    fix ys zs
    assume h: "xs = ys @ (l, Some v) # zs" "\<forall>bl bv. ?b = Some (bl, bv) \<longrightarrow> bv < v"
      "\<forall>(l', x) \<in> set ys. \<forall>w. x = Some w \<longrightarrow> w < v"
      "\<forall>(l', x) \<in> set zs. \<forall>w. x = Some w \<longrightarrow> w \<le> v"
    from h(2) have uv: "u < v" and bv: "\<forall>bl bv. best = Some (bl, bv) \<longrightarrow> bv < v"
      by (auto split: option.splits if_splits)
    have "(l0, Some u) # xs = ((l0, Some u) # ys) @ (l, Some v) # zs
        \<and> (\<forall>(l', x) \<in> set ((l0, Some u) # ys). \<forall>w. x = Some w \<longrightarrow> w < v)"
      using h(1,3) uv by auto
    with h(4) bv show ?thesis by blast
  qed
qed

lemma idxmax_from_None_split:
  assumes "idxmax_from None xs = Some (l, v)"
  shows "\<exists>ys zs. xs = ys @ (l, Some v) # zs
          \<and> (\<forall>(l', x) \<in> set ys. \<forall>w. x = Some w \<longrightarrow> w < v)
          \<and> (\<forall>(l', x) \<in> set zs. \<forall>w. x = Some w \<longrightarrow> w \<le> v)"
  using idxmax_from_split[OF assms] by auto

lemma idxmax_from_Some_start: "idxmax_from (Some b) xs \<noteq> None"
  by (induction "Some b" xs arbitrary: b rule: idxmax_from.induct) (auto split: prod.splits)

lemma idxmax_from_None_iff:
  "idxmax_from None xs = None \<longleftrightarrow> (\<forall>(l, x) \<in> set xs. x = None)"
proof (induction xs)
  case Nil
  then show ?case by simp
next
  case (Cons a xs)
  obtain l x where a: "a = (l, x)" by (cases a)
  show ?case
  proof (cases x)
    case None
    with a Cons show ?thesis by simp
  next
    case (Some v)
    with a show ?thesis by (simp add: idxmax_from_Some_start)
  qed
qed

lemma idxmax_None_iff: "idxmax xs = None \<longleftrightarrow> (\<forall>(l, x) \<in> set xs. x = None)"
  by (simp add: idxmax_def idxmax_from_None_iff)

lemma idxmax_SomeD:
  assumes "idxmax xs = Some l"
  shows "\<exists>v ys zs. xs = ys @ (l, Some v) # zs
          \<and> (\<forall>(l', x) \<in> set ys. \<forall>w. x = Some w \<longrightarrow> w < v)
          \<and> (\<forall>(l', x) \<in> set zs. \<forall>w. x = Some w \<longrightarrow> w \<le> v)"
proof -
  from assms obtain v where "idxmax_from None xs = Some (l, v)"
    by (auto simp: idxmax_def)
  from idxmax_from_None_split[OF this] show ?thesis by blast
qed

lemma filter_label_single:
  "distinct (map fst rs) \<Longrightarrow> (l, r) \<in> set rs \<Longrightarrow> filter (\<lambda>(i, r). i = l) rs = [(l, r)]"
proof (induction rs)
  case Nil
  then show ?case by simp
next
  case (Cons a rs)
  obtain i r0 where a: "a = (i, r0)" by (cases a)
  show ?case
  proof (cases "i = l")
    case True
    with Cons.prems a have "r0 = r" by (auto simp: image_iff)
    moreover have "filter (\<lambda>(i, r). i = l) rs = []"
      using Cons.prems a True by (auto simp: filter_empty_conv image_iff)
    ultimately show ?thesis using a True by simp
  next
    case False
    with Cons a show ?thesis by auto
  qed
qed

lemma loc_rows_fail:
  "\<exists>k \<in> set ks. f k = None \<Longrightarrow> loc_rows rs (map f ks) = Inl KeyError"
proof (induction ks)
  case Nil
  then show ?case by simp
next
  case (Cons k ks)
  show ?case
  proof (cases "f k")
    case None
    then show ?thesis by simp
  next
    case (Some l)
    with Cons.prems have "\<exists>k \<in> set ks. f k = None" by auto
    with Cons.IH have "loc_rows rs (map f ks) = Inl KeyError" by simp
    with Some show ?thesis by (simp split: list.splits)
  qed
qed

lemma loc_rows_ok:
  "\<forall>k \<in> set ks. f k = Some (L k) \<and> filter (\<lambda>(i, r). i = L k) rs = [(L k, R k)] \<Longrightarrow>
     loc_rows rs (map f ks) = Inr (map (\<lambda>k. (L k, R k)) ks)"
  by (induction ks) simp_all

text \<open>The row that \<open>idxmax\<close> of the dates selects within one location.\<close>

lemma group_idxmax_row:
  fixes rs :: "(nat \<times> row) list"
  assumes dist: "distinct (map fst rs)"
    and top: "idxmax (map (\<lambda>(i, r). (i, date r)) (filter (\<lambda>(i, r). location r = k) rs)) = Some l"
  shows "\<exists>r d. filter (\<lambda>(i, r). i = l) rs = [(l, r)] \<and> (l, r) \<in> set rs \<and> location r = k
           \<and> date r = Some d
           \<and> (\<forall>(j, r') \<in> set rs. location r' = k \<longrightarrow> (\<forall>e. date r' = Some e \<longrightarrow> e \<le> d))
           \<and> (sorted_wrt (<) (map fst rs) \<longrightarrow>
                (\<forall>(j, r') \<in> set rs. location r' = k \<and> date r' = Some d \<longrightarrow> l \<le> j))"
proof -
  let ?g = "filter (\<lambda>(i, r). location r = k) rs"
  let ?h = "\<lambda>(i, r). (i, date r)"
  from idxmax_SomeD[OF top] obtain d ys zs where
    split: "map ?h ?g = ys @ (l, Some d) # zs"
    and lt: "\<forall>(l', x) \<in> set ys. \<forall>w. x = Some w \<longrightarrow> w < d"
    and le: "\<forall>(l', x) \<in> set zs. \<forall>w. x = Some w \<longrightarrow> w \<le> d"
    by blast
  have "(l, Some d) \<in> set (map ?h ?g)" unfolding split by simp
  then obtain r where r: "(l, r) \<in> set rs" "location r = k" "date r = Some d"
    by auto
  have single: "filter (\<lambda>(i, r). i = l) rs = [(l, r)]"
    by (rule filter_label_single[OF dist r(1)])
  have mem: "(j, date r') \<in> set ys \<union> {(l, Some d)} \<union> set zs"
    if "(j, r') \<in> set rs" "location r' = k" for j r'
  proof -
    from that have "(j, r') \<in> set ?g" by simp
    then have "?h (j, r') \<in> ?h ` set ?g" by (rule imageI)
    then have "(j, date r') \<in> set (map ?h ?g)" by simp
    then show ?thesis unfolding split by auto
  qed
  have max: "\<forall>(j, r') \<in> set rs. location r' = k \<longrightarrow> (\<forall>e. date r' = Some e \<longrightarrow> e \<le> d)"
  proof (intro ballI, clarify)
    fix j r' e assume a: "(j, r') \<in> set rs" "k = location r'" "date r' = Some e"
    from mem[OF a(1)] a(2,3) have "(j, Some e) \<in> set ys \<union> {(l, Some d)} \<union> set zs" by auto
    then consider "(j, Some e) \<in> set ys" | "e = d" | "(j, Some e) \<in> set zs" by auto
    then show "e \<le> d"
    proof cases
      case 1
      with lt have "e < d" by blast
      then show ?thesis by simp
    next
      case 2
      then show ?thesis by simp
    next
      case 3
      with le show ?thesis by blast
    qed
  qed
  have first: "\<forall>(j, r') \<in> set rs. location r' = k \<and> date r' = Some d \<longrightarrow> l \<le> j"
    if srt: "sorted_wrt (<) (map fst rs)"
  proof (intro ballI, clarify)
    fix j r' assume a: "(j, r') \<in> set rs" "k = location r'" "date r' = Some d"
    have eq: "map fst (map ?h ?g) = map fst ?g" by (simp add: split_beta comp_def)
    have "sorted_wrt (<) (map fst ?g)"
      using srt by (induction rs) (auto simp: split_beta)
    then have "sorted_wrt (<) (map fst (map ?h ?g))"
      unfolding eq .
    then have "sorted_wrt (<) (map fst (ys @ (l, Some d) # zs))"
      unfolding split .
    then have after: "\<forall>(l', x) \<in> set zs. l < l'"
      by (auto simp: sorted_wrt_append)
    from mem[OF a(1)] a(2,3) have "(j, Some d) \<in> set ys \<union> {(l, Some d)} \<union> set zs" by auto
    then consider "(j, Some d) \<in> set ys" | "j = l" | "(j, Some d) \<in> set zs" by auto
    then show "l \<le> j"
    proof cases
      case 1
      with lt have "d < d" by blast
      then show ?thesis by simp
    next
      case 2
      then show ?thesis by simp
    next
      case 3
      with after have "l < j" by blast
      then show ?thesis by simp
    qed
  qed
  show ?thesis
  proof (intro exI[of _ r] exI[of _ d] conjI impI)
    show "filter (\<lambda>(i, r). i = l) rs = [(l, r)]" by (rule single)
    show "(l, r) \<in> set rs" "location r = k" "date r = Some d" by (rule r)+
    show "\<forall>(j, r') \<in> set rs. location r' = k \<longrightarrow> (\<forall>e. date r' = Some e \<longrightarrow> e \<le> d)"
      by (rule max)
    show "\<forall>(j, r') \<in> set rs. location r' = k \<and> date r' = Some d \<longrightarrow> l \<le> j"
      if "sorted_wrt (<) (map fst rs)" using first[OF that] .
  qed
qed

lemma group_keys_props [simp]:
  "set (group_keys ks) = set ks" "distinct (group_keys ks)" "sorted (group_keys ks)"
  by (simp_all add: group_keys_def)


lemma has_dated_row_iff:
  "has_dated_row df loc \<longleftrightarrow> (\<exists>(i, r) \<in> set (rows df). location r = loc \<and> date r \<noteq> None)"
  by (auto simp: has_dated_row_def filter_empty_conv)

lemma group_idxmax_Some:
  assumes "has_dated_row df k"
  shows "\<exists>l. idxmax (map (\<lambda>(i, r). (i, date r)) (filter (\<lambda>(i, r). location r = k) (rows df))) = Some l"
proof -
  from assms obtain i r where "(i, r) \<in> set (rows df)" "location r = k" "date r \<noteq> None"
    by (auto simp: has_dated_row_iff)
  then have "(i, date r) \<in> set (map (\<lambda>(i, r). (i, date r)) (filter (\<lambda>(i, r). location r = k) (rows df)))"
    by (auto simp: image_iff intro!: bexI[of _ "(i, r)"])
  then have mem: "(i, date r) \<in> set (map (\<lambda>(i, r). (i, date r)) (filter (\<lambda>(i, r). location r = k) (rows df)))" .
  have "idxmax (map (\<lambda>(i, r). (i, date r)) (filter (\<lambda>(i, r). location r = k) (rows df))) \<noteq> None"
  proof
    assume "idxmax (map (\<lambda>(i, r). (i, date r)) (filter (\<lambda>(i, r). location r = k) (rows df))) = None"
    then have "\<forall>(l, x) \<in> set (map (\<lambda>(i, r). (i, date r)) (filter (\<lambda>(i, r). location r = k) (rows df))). x = None"
      by (simp only: idxmax_None_iff)
    from bspec[OF this mem] have "date r = None" by simp
    with \<open>date r \<noteq> None\<close> show False by simp
  qed
  then show ?thesis by auto
qed

lemma group_idxmax_None:
  assumes "\<not> has_dated_row df k"
  shows "idxmax (map (\<lambda>(i, r). (i, date r)) (filter (\<lambda>(i, r). location r = k) (rows df))) = None"
  using assms unfolding idxmax_None_iff has_dated_row_iff by auto

lemma latest_df_undated:
  assumes "k \<in> set (locations df)" and "\<not> has_dated_row df k"
  shows "latest_df df = empty_frame"
proof -
  have "\<exists>k \<in> set (group_keys (locations df)).
          idxmax (map (\<lambda>(i, r). (i, date r)) (filter (\<lambda>(i, r). location r = k) (rows df))) = None"
    using assms group_idxmax_None by auto
  then have "loc_rows (rows df) (groupby_idxmax_date df) = Inl KeyError"
    unfolding groupby_idxmax_date_def by (rule loc_rows_fail)
  then show ?thesis by (simp add: latest_df_def)
qed

lemma latest_df_empty: "rows df = [] \<Longrightarrow> latest_df df = empty_frame"
  by (simp add: latest_df_def)

lemma rows_empty_frame [simp]: "rows empty_frame = []" "columns empty_frame = []"
  by (simp_all add: empty_frame_def)

lemma latest_df_dated:
  assumes dist: "distinct (index df)"
    and dated: "\<forall>k \<in> set (locations df). has_dated_row df k"
  shows "locations (latest_df df) = group_keys (locations df)"
    and "\<forall>(i, r) \<in> set (rows (latest_df df)).
           (i, r) \<in> set (rows df)
           \<and> (\<exists>d. date r = Some d
                 \<and> (\<forall>(j, r') \<in> set (rows df). location r' = location r \<longrightarrow>
                        (\<forall>e. date r' = Some e \<longrightarrow> e \<le> d))
                 \<and> (sorted_wrt (<) (index df) \<longrightarrow>
                        (\<forall>(j, r') \<in> set (rows df). location r' = location r \<and> date r' = Some d
                            \<longrightarrow> i \<le> j)))"
    and "rows df \<noteq> [] \<Longrightarrow> columns (latest_df df) = columns df"
proof -
  let ?f = "\<lambda>k. idxmax (map (\<lambda>(i, r). (i, date r)) (filter (\<lambda>(i, r). location r = k) (rows df)))"
  let ?keys = "group_keys (locations df)"
  define Q where "Q k l r d \<longleftrightarrow>
      ?f k = Some l \<and> filter (\<lambda>(i, r). i = l) (rows df) = [(l, r)]
      \<and> (l, r) \<in> set (rows df) \<and> location r = k \<and> date r = Some d
      \<and> (\<forall>(j, r') \<in> set (rows df). location r' = k \<longrightarrow> (\<forall>e. date r' = Some e \<longrightarrow> e \<le> d))
      \<and> (sorted_wrt (<) (map fst (rows df)) \<longrightarrow>
            (\<forall>(j, r') \<in> set (rows df). location r' = k \<and> date r' = Some d \<longrightarrow> l \<le> j))"
    for k l r d
  have dist': "distinct (map fst (rows df))" using dist by (simp add: index_def)
  have "\<exists>l r d. Q k l r d" if "k \<in> set ?keys" for k
  proof -
    from that dated have "has_dated_row df k" by simp
    from group_idxmax_Some[OF this] obtain l where l: "?f k = Some l" by blast
    from group_idxmax_row[OF dist' l] l show ?thesis unfolding Q_def by blast
  qed
  then have "\<forall>k \<in> set ?keys. \<exists>l r d. Q k l r d" by blast
  then obtain L R Dt where pick: "\<forall>k \<in> set ?keys. Q k (L k) (R k) (Dt k)" by metis
  have "loc_rows (rows df) (map ?f ?keys) = Inr (map (\<lambda>k. (L k, R k)) ?keys)"
    by (rule loc_rows_ok) (use pick in \<open>simp add: Q_def\<close>)
  then have lr: "loc_rows (rows df) (groupby_idxmax_date df) = Inr (map (\<lambda>k. (L k, R k)) ?keys)"
    by (simp add: groupby_idxmax_date_def)
  have rows: "rows (latest_df df) = map (\<lambda>k. (L k, R k)) ?keys"
  proof (cases "rows df = []")
    case True
    then show ?thesis by (simp add: latest_df_def locations_def group_keys_def)
  next
    case False
    with lr show ?thesis by (simp add: latest_df_def)
  qed
  have "map (\<lambda>k. location (R k)) ?keys = map (\<lambda>k. k) ?keys"
    by (rule map_cong[OF refl]) (use pick in \<open>simp add: Q_def\<close>)
  then show "locations (latest_df df) = ?keys"
    by (simp add: locations_def rows comp_def)
  show "\<forall>(i, r) \<in> set (rows (latest_df df)).
           (i, r) \<in> set (rows df)
           \<and> (\<exists>d. date r = Some d
                 \<and> (\<forall>(j, r') \<in> set (rows df). location r' = location r \<longrightarrow>
                        (\<forall>e. date r' = Some e \<longrightarrow> e \<le> d))
                 \<and> (sorted_wrt (<) (index df) \<longrightarrow>
                        (\<forall>(j, r') \<in> set (rows df). location r' = location r \<and> date r' = Some d
                            \<longrightarrow> i \<le> j)))"
  proof (intro ballI, clarify)
    fix i r assume "(i, r) \<in> set (rows (latest_df df))"
    then obtain k where k: "k \<in> set ?keys" "i = L k" "r = R k"
      unfolding rows by auto
    from pick k(1) have q: "Q k (L k) (R k) (Dt k)" by blast
    have loc: "location (R k) = k" using q by (simp add: Q_def)
    show "(i, r) \<in> set (rows df)
           \<and> (\<exists>d. date r = Some d
                 \<and> (\<forall>(j, r') \<in> set (rows df). location r' = location r \<longrightarrow>
                        (\<forall>e. date r' = Some e \<longrightarrow> e \<le> d))
                 \<and> (sorted_wrt (<) (index df) \<longrightarrow>
                        (\<forall>(j, r') \<in> set (rows df). location r' = location r \<and> date r' = Some d
                            \<longrightarrow> i \<le> j)))"
      unfolding k(2,3) index_def loc
      using q unfolding Q_def by (intro conjI exI[of _ "Dt k"]) simp_all
  qed
  show "columns (latest_df df) = columns df" if "rows df \<noteq> []"
    using that lr by (simp add: latest_df_def)
qed

lemma same_keys_rows:
  assumes "index A = index B" and "locations A = locations B" and "dates A = dates B"
    and "(j, r) \<in> set (rows A)"
  shows "\<exists>r'. (j, r') \<in> set (rows B) \<and> location r' = location r \<and> date r' = date r"
proof -
  from assms(4) obtain n where n: "n < length (rows A)" "rows A ! n = (j, r)"
    by (auto simp: in_set_conv_nth)
  have len: "length (rows B) = length (rows A)"
    using arg_cong[OF assms(1), of length] by simp
  obtain j' r' where b: "rows B ! n = (j', r')" by (cases "rows B ! n")
  have "index A ! n = j" "locations A ! n = location r" "dates A ! n = date r"
    using n by (simp_all add: index_def locations_def dates_def)
  moreover have "index B ! n = j'" "locations B ! n = location r'" "dates B ! n = date r'"
    using n len b by (simp_all add: index_def locations_def dates_def)
  ultimately have "j' = j" "location r' = location r" "date r' = date r"
    using assms(1,2,3) by simp_all
  moreover have "(j', r') \<in> set (rows B)"
    using b n len by (metis nth_mem)
  ultimately show ?thesis by blast
qed

lemma rows_df_countries_read_csv:
  "(j, r) \<in> set (rows (df_countries (read_csv cols rs))) \<longleftrightarrow>
     j < length rs \<and> r = rs ! j \<and> location r \<in> set countries_of_interest"
  by (auto simp: df_countries_def read_csv_def in_set_enumerate_eq)

lemma sorted_wrt_map_fst_filter:
  fixes xs :: "(nat \<times> 'a) list"
  shows "sorted_wrt (<) (map fst xs) \<Longrightarrow> sorted_wrt (<) (map fst (filter P xs))"
  by (induction xs) auto

lemma index_df_countries_sorted:
  "sorted_wrt (<) (index (df_countries (read_csv cols rs)))"
proof -
  have "sorted_wrt (<) (map fst (enumerate 0 rs))"
    by (simp add: map_fst_enumerate)
  then show ?thesis
    unfolding index_def df_countries_def read_csv_def
    by (simp add: sorted_wrt_map_fst_filter)
qed

lemma filled_series_keys [simp]:
  "index (filled_series cols rs) = index (df_countries (read_csv cols rs))"
  "locations (filled_series cols rs) = locations (df_countries (read_csv cols rs))"
  "dates (filled_series cols rs) = dates (df_countries (read_csv cols rs))"
  "columns (filled_series cols rs) = cols"
  by (simp_all add: filled_series_def fill_key_metrics_def df_countries_def read_csv_def)

lemma index_filled_series_sorted: "sorted_wrt (<) (index (filled_series cols rs))"
  by (simp add: index_df_countries_sorted)

lemma sorted_wrt_less_distinct:
  fixes xs :: "nat list"
  shows "sorted_wrt (<) xs \<Longrightarrow> distinct xs"
  by (induction xs) auto

lemma index_filled_series_distinct: "distinct (index (filled_series cols rs))"
  by (rule sorted_wrt_less_distinct[OF index_filled_series_sorted])

lemma filled_series_rowD:
  assumes "(j, r) \<in> set (rows (filled_series cols rs))"
  shows "j < length rs \<and> location (rs ! j) = location r \<and> date (rs ! j) = date r
           \<and> location r \<in> set countries_of_interest"
proof -
  from same_keys_rows[OF _ _ _ assms, of "df_countries (read_csv cols rs)"]
  obtain r' where "(j, r') \<in> set (rows (df_countries (read_csv cols rs)))"
    "location r' = location r" "date r' = date r" by auto
  then show ?thesis by (auto simp: rows_df_countries_read_csv)
qed

lemma filled_series_rowI:
  assumes "j < length rs" and "location (rs ! j) \<in> set countries_of_interest"
  shows "\<exists>r. (j, r) \<in> set (rows (filled_series cols rs)) \<and> location r = location (rs ! j)
              \<and> date r = date (rs ! j)"
proof -
  have "(j, rs ! j) \<in> set (rows (df_countries (read_csv cols rs)))"
    using assms by (simp add: rows_df_countries_read_csv)
  from same_keys_rows[OF _ _ _ this, of "filled_series cols rs"] show ?thesis by auto
qed

lemma distinct_map_filter_single:
  "distinct (map f xs) \<Longrightarrow> k \<in> set (map f xs) \<Longrightarrow> \<exists>x. filter (\<lambda>x. f x = k) xs = [x]"
proof (induction xs)
  case Nil
  then show ?case by simp
next
  case (Cons a xs)
  show ?case
  proof (cases "f a = k")
    case True
    with Cons.prems have "k \<notin> f ` set xs" by auto
    then have "filter (\<lambda>x. f x = k) xs = []"
      by (auto simp: filter_empty_conv)
    with True show ?thesis by simp
  next
    case False
    with Cons show ?thesis by auto
  qed
qed

lemma snapshot_cases:
  obtains (dated) "\<forall>k \<in> set (locations (filled_series cols rs)). has_dated_row (filled_series cols rs) k"
  | (undated) "rows (snapshot cols rs) = []"
proof (cases "\<forall>k \<in> set (locations (filled_series cols rs)). has_dated_row (filled_series cols rs) k")
  case True
  then show ?thesis by (rule dated)
next
  case False
  then obtain k where "k \<in> set (locations (filled_series cols rs))"
    "\<not> has_dated_row (filled_series cols rs) k" by blast
  from latest_df_undated[OF this] have "rows (snapshot cols rs) = []"
    by (simp add: snapshot_def)
  then show ?thesis by (rule undated)
qed

lemma snapshot_rows_subset:
  assumes "(i, r) \<in> set (rows (snapshot cols rs))"
  shows "(i, r) \<in> set (rows (filled_series cols rs))"
proof (cases rule: snapshot_cases[of cols rs])
  case dated
  from latest_df_dated(2)[OF index_filled_series_distinct dated] assms
  show ?thesis unfolding snapshot_def by blast
next
  case undated
  with assms show ?thesis by simp
qed

text \<open>
  If every location of the filled data has at least one dated row, the snapshot holds
  exactly one row for each such location, a row of the filled data whose date is the
  greatest date of the location. A location without rows in the filled data has no
  snapshot row, whatever the dates.
\<close>

lemma snapshot_dated_locations:
  "((\<forall>loc \<in> set (locations (filled_series cols rs)). has_dated_row (filled_series cols rs) loc) \<longrightarrow>
      (\<forall>loc \<in> set (locations (filled_series cols rs)).
         \<exists>i r d. snapshot_entries (snapshot cols rs) loc = [(i, r)]
                 \<and> (i, r) \<in> set (rows (filled_series cols rs))
                 \<and> date r = Some d
                 \<and> (\<forall>(j, r') \<in> set (rows (filled_series cols rs)).
                        location r' = loc \<longrightarrow> (\<forall>e. date r' = Some e \<longrightarrow> e \<le> d))))
   \<and> (\<forall>loc. loc \<notin> set (locations (filled_series cols rs)) \<longrightarrow>
          snapshot_entries (snapshot cols rs) loc = [])"
proof (intro conjI impI ballI allI)
  fix loc
  let ?F = "filled_series cols rs" and ?S = "snapshot cols rs"
  assume dated: "\<forall>loc \<in> set (locations ?F). has_dated_row ?F loc"
    and loc: "loc \<in> set (locations ?F)"
  note props = latest_df_dated[OF index_filled_series_distinct dated, folded snapshot_def]
  have "distinct (map (\<lambda>(i, r). location r) (rows ?S))"
    and "loc \<in> set (map (\<lambda>(i, r). location r) (rows ?S))"
    using props(1) loc by (simp_all add: locations_def)
  from distinct_map_filter_single[OF this] obtain x where
    "filter (\<lambda>x. (case x of (i, r) \<Rightarrow> location r) = loc) (rows ?S) = [x]" by blast
  moreover obtain i r where x: "x = (i, r)" by (cases x)
  moreover have "filter (\<lambda>(i, r). location r = loc) (rows ?S)
                   = filter (\<lambda>x. (case x of (i, r) \<Rightarrow> location r) = loc) (rows ?S)"
    by (rule filter_cong) auto
  ultimately have single: "snapshot_entries ?S loc = [(i, r)]"
    unfolding snapshot_entries_def by (simp only:)
  then have "(i, r) \<in> set (snapshot_entries ?S loc)" by simp
  then have mem: "(i, r) \<in> set (rows ?S)" and lr: "location r = loc"
    by (simp_all add: snapshot_entries_def)
  from props(2) mem obtain d where
    d: "(i, r) \<in> set (rows ?F)" "date r = Some d"
       "\<forall>(j, r') \<in> set (rows ?F). location r' = location r \<longrightarrow> (\<forall>e. date r' = Some e \<longrightarrow> e \<le> d)"
    by blast
  show "\<exists>i r d. snapshot_entries ?S loc = [(i, r)] \<and> (i, r) \<in> set (rows ?F) \<and> date r = Some d
          \<and> (\<forall>(j, r') \<in> set (rows ?F). location r' = loc \<longrightarrow> (\<forall>e. date r' = Some e \<longrightarrow> e \<le> d))"
    using single d unfolding lr by blast
next
  fix loc
  let ?F = "filled_series cols rs" and ?S = "snapshot cols rs"
  assume notin: "loc \<notin> set (locations ?F)"
  have "\<not> (\<exists>(i, r) \<in> set (rows ?S). location r = loc)"
  proof
    assume "\<exists>(i, r) \<in> set (rows ?S). location r = loc"
    then obtain i r where "(i, r) \<in> set (rows ?S)" "location r = loc" by blast
    with snapshot_rows_subset have "(i, r) \<in> set (rows ?F)" by blast
    then have "location r \<in> set (locations ?F)"
      unfolding locations_def by (auto simp: image_iff intro!: bexI[of _ "(i, r)"])
    with notin \<open>location r = loc\<close> show False by simp
  qed
  then show "snapshot_entries ?S loc = []"
    by (auto simp: snapshot_entries_def filter_empty_conv)
qed

lemma dated_input_has_dated_rows:
  assumes "\<forall>r \<in> set rs. date r \<noteq> None"
  shows "\<forall>loc \<in> set (locations (filled_series cols rs)). has_dated_row (filled_series cols rs) loc"
proof
  fix loc assume "loc \<in> set (locations (filled_series cols rs))"
  then obtain i r where r: "(i, r) \<in> set (rows (filled_series cols rs))" "location r = loc"
    unfolding locations_def by auto
  from filled_series_rowD[OF r(1)] have "i < length rs" "date (rs ! i) = date r" by simp_all
  with assms have "date r \<noteq> None" by (metis nth_mem)
  with r show "has_dated_row (filled_series cols rs) loc"
    unfolding has_dated_row_iff by (intro bexI[of _ "(i, r)"]) simp_all
qed

text \<open>
  Claim C3. The records of the specification carry a date (sections 3 and 6). For such
  input, every location present in the filled data has exactly one snapshot row, a row
  of the filled data whose date is the greatest date among the location's records; and
  a location without records in the filled data has no snapshot row.
\<close>

theorem snapshot_correct:
  "((\<forall>r \<in> set rs. date r \<noteq> None) \<longrightarrow>
      (\<forall>loc \<in> set (locations (filled_series cols rs)).
         \<exists>i r d. snapshot_entries (snapshot cols rs) loc = [(i, r)]
                 \<and> (i, r) \<in> set (rows (filled_series cols rs))
                 \<and> date r = Some d
                 \<and> (\<forall>(j, r') \<in> set (rows (filled_series cols rs)).
                        location r' = loc \<longrightarrow> (\<forall>e. date r' = Some e \<longrightarrow> e \<le> d))))
   \<and> (\<forall>loc. loc \<notin> set (locations (filled_series cols rs)) \<longrightarrow>
          snapshot_entries (snapshot cols rs) loc = [])"
  using snapshot_dated_locations[of cols rs] dated_input_has_dated_rows[of rs cols]
  by blast

text \<open>The theorem at \<open>fill_example\<close>: one row for Kenya, none for France.\<close>

theorem snapshot_correct_witness:
  "list_all (\<lambda>r. date r \<noteq> None) fill_example
   \<and> ''Kenya'' \<in> set (locations (filled_series [''total_cases''] fill_example))
   \<and> ''France'' \<notin> set (locations (filled_series [''total_cases''] fill_example))
   \<and> length (snapshot_entries (snapshot [''total_cases''] fill_example) ''Kenya'') = 1
   \<and> snapshot_entries (snapshot [''total_cases''] fill_example) ''France'' = []
   \<and> locations (snapshot [''total_cases''] fill_example) = [''India'', ''Kenya'']
   \<and> index (snapshot [''total_cases''] fill_example) = [4, 5]
   \<and> dates (snapshot [''total_cases''] fill_example) = [Some 2, Some 3]
   \<and> column ''total_cases'' (snapshot [''total_cases''] fill_example)
        = [Some (Fin 7), Some (Fin 300)]"
proof -
  let ?F = "filled_series [''total_cases''] fill_example"
  let ?S = "snapshot [''total_cases''] fill_example"
  have loc: "locations ?F = [''Kenya'', ''India'', ''Kenya'', ''India'', ''Kenya'']"
    by code_simp
  have dated: "list_all (\<lambda>r. date r \<noteq> None) fill_example"
    by (simp add: fill_example_def csv_row_def)
  have vals: "locations ?S = [''India'', ''Kenya'']" "index ?S = [4, 5]"
    "dates ?S = [Some 2, Some 3]" "column ''total_cases'' ?S = [Some (Fin 7), Some (Fin 300)]"
    by code_simp+
  have k: "''Kenya'' \<in> set (locations ?F)" and f: "''France'' \<notin> set (locations ?F)"
    unfolding loc by simp_all
  note inst = snapshot_correct[where cols = "[''total_cases'']" and rs = fill_example]
  from inst dated k obtain i r where "snapshot_entries ?S ''Kenya'' = [(i, r)]"
    unfolding list_all_iff by blast
  then have one: "length (snapshot_entries ?S ''Kenya'') = 1" by simp
  from inst f have none: "snapshot_entries ?S ''France'' = []" by blast
  from dated k f one none vals show ?thesis by simp
qed

text \<open>
  Claim C8, as the code has it. The index label of a snapshot row is its position in the
  input; the row has the greatest date of its location, and no earlier input row of the
  location has that date: among the rows sharing the greatest date the first one is
  selected.
\<close>

theorem snapshot_first_occurrence:
  "\<forall>(i, r) \<in> set (rows (snapshot cols rs)).
     i < length rs \<and> location (rs ! i) = location r \<and> date (rs ! i) = date r
     \<and> (\<forall>j < length rs. location (rs ! j) = location r \<longrightarrow>
            (\<forall>e. date (rs ! j) = Some e \<longrightarrow> (\<exists>d. date r = Some d \<and> e \<le> d)))
     \<and> (\<forall>j < i. \<not> (location (rs ! j) = location r \<and> date (rs ! j) = date r))"
proof (intro ballI, clarify)
  fix i r
  let ?F = "filled_series cols rs" and ?S = "snapshot cols rs"
  assume mem: "(i, r) \<in> set (rows ?S)"
  then have "rows ?S \<noteq> []" by auto
  then have dated: "\<forall>k \<in> set (locations ?F). has_dated_row ?F k"
    by (cases rule: snapshot_cases[of cols rs]) simp_all
  from latest_df_dated(2)[OF index_filled_series_distinct dated, folded snapshot_def] mem
  obtain d where inF: "(i, r) \<in> set (rows ?F)" and d: "date r = Some d"
    and mx: "\<forall>(j, r') \<in> set (rows ?F). location r' = location r \<longrightarrow> (\<forall>e. date r' = Some e \<longrightarrow> e \<le> d)"
    and fst: "\<forall>(j, r') \<in> set (rows ?F). location r' = location r \<and> date r' = Some d \<longrightarrow> i \<le> j"
    using index_filled_series_sorted[of cols rs] by blast
  from filled_series_rowD[OF inF] have row: "i < length rs" "location (rs ! i) = location r"
    "date (rs ! i) = date r" "location r \<in> set countries_of_interest" by simp_all
  have other: "\<exists>r'. (j, r') \<in> set (rows ?F) \<and> location r' = location r \<and> date r' = date (rs ! j)"
    if "j < length rs" "location (rs ! j) = location r" for j
    using filled_series_rowI[of j rs cols] that row(4) by auto
  have max: "\<forall>j < length rs. location (rs ! j) = location r \<longrightarrow>
            (\<forall>e. date (rs ! j) = Some e \<longrightarrow> (\<exists>d. date r = Some d \<and> e \<le> d))"
  proof (intro allI impI)
    fix j e assume j: "j < length rs" "location (rs ! j) = location r" "date (rs ! j) = Some e"
    from other[OF j(1,2)] obtain r' where "(j, r') \<in> set (rows ?F)" "location r' = location r"
      "date r' = Some e" using j(3) by auto
    with mx have "e \<le> d" by blast
    with d show "\<exists>d. date r = Some d \<and> e \<le> d" by simp
  qed
  have first: "\<forall>j < i. \<not> (location (rs ! j) = location r \<and> date (rs ! j) = date r)"
  proof (intro allI impI notI)
    fix j assume j: "j < i" "location (rs ! j) = location r \<and> date (rs ! j) = date r"
    then have "j < length rs" using row(1) by simp
    from other[OF this] j(2) obtain r' where "(j, r') \<in> set (rows ?F)" "location r' = location r"
      "date r' = Some d" using d by auto
    with fst have "i \<le> j" by blast
    with j(1) show False by simp
  qed
  show "i < length rs \<and> location (rs ! i) = location r \<and> date (rs ! i) = date r
     \<and> (\<forall>j < length rs. location (rs ! j) = location r \<longrightarrow>
            (\<forall>e. date (rs ! j) = Some e \<longrightarrow> (\<exists>d. date r = Some d \<and> e \<le> d)))
     \<and> (\<forall>j < i. \<not> (location (rs ! j) = location r \<and> date (rs ! j) = date r))"
    using row(1,2,3) max first by blast
qed

text \<open>The theorem at \<open>tie_example\<close>: of the two rows of day 5 the first is selected.\<close>

theorem snapshot_first_occurrence_witness:
  "rows (snapshot [''total_cases''] tie_example) \<noteq> []
   \<and> list_all (\<lambda>(i, r). i < length tie_example \<and> date (tie_example ! i) = date r
                  \<and> list_all (\<lambda>j. \<not> (location (tie_example ! j) = location r
                                       \<and> date (tie_example ! j) = date r)) [0..<i])
        (rows (snapshot [''total_cases''] tie_example))
   \<and> dates (filled_series [''total_cases''] tie_example) = [Some 5, Some 5, Some 4]
   \<and> index (snapshot [''total_cases''] tie_example) = [0]"
proof -
  have vals: "dates (filled_series [''total_cases''] tie_example) = [Some 5, Some 5, Some 4]"
    "index (snapshot [''total_cases''] tie_example) = [0]"
    by code_simp+
  then have ne: "rows (snapshot [''total_cases''] tie_example) \<noteq> []"
    by (auto simp: index_def)
  have "list_all (\<lambda>(i, r). i < length tie_example \<and> date (tie_example ! i) = date r
                  \<and> list_all (\<lambda>j. \<not> (location (tie_example ! j) = location r
                                       \<and> date (tie_example ! j) = date r)) [0..<i])
        (rows (snapshot [''total_cases''] tie_example))"
    unfolding list_all_iff
    using snapshot_first_occurrence[of "[''total_cases'']" tie_example] by fastforce
  with ne vals show ?thesis by simp
qed

text \<open>
  The claim as stated fails: rows 0 and 1 of \<open>tie_example\<close> share the greatest date and
  the snapshot holds row 0, the first, not the last.
\<close>

theorem snapshot_last_occurrence_counterexample:
  "dates (filled_series [''total_cases''] tie_example) = [Some 5, Some 5, Some 4]
   \<and> locations (filled_series [''total_cases''] tie_example) = [''Kenya'', ''Kenya'', ''Kenya'']
   \<and> index (snapshot [''total_cases''] tie_example) = [0]
   \<and> column ''total_cases'' (snapshot [''total_cases''] tie_example) = [Some (Fin 1)]"
  by code_simp

section \<open>The windowed average\<close>

lemma series_max_SomeD:
  assumes "series_max xs = Some m"
  shows "Some m \<in> set xs" and "\<forall>x \<in> set xs. \<forall>d. x = Some d \<longrightarrow> d \<le> m"
proof -
  from assms obtain u where "idxmax_from None (map (\<lambda>x. ((), x)) xs) = Some (u, m)"
    by (auto simp: series_max_def)
  from idxmax_from_None_split[OF this] obtain ys zs where
    split: "map (\<lambda>x. ((), x)) xs = ys @ (u, Some m) # zs"
    and lt: "\<forall>(l', x) \<in> set ys. \<forall>w. x = Some w \<longrightarrow> w < m"
    and le: "\<forall>(l', x) \<in> set zs. \<forall>w. x = Some w \<longrightarrow> w \<le> m"
    by blast
  have xs: "xs = map snd (ys @ (u, Some m) # zs)"
    unfolding split[symmetric] by (simp add: comp_def)
  show "Some m \<in> set xs" unfolding xs by simp
  show "\<forall>x \<in> set xs. \<forall>d. x = Some d \<longrightarrow> d \<le> m"
  proof (intro ballI allI impI)
    fix x d assume "x \<in> set xs" "x = Some d"
    then have "Some d \<in> snd ` set ys \<or> d = m \<or> Some d \<in> snd ` set zs"
      unfolding xs by auto
    then consider l where "(l, Some d) \<in> set ys" | "d = m" | l where "(l, Some d) \<in> set zs"
      by force
    then show "d \<le> m"
    proof cases
      case 1
      with lt have "d < m" by blast
      then show ?thesis by simp
    next
      case 2
      then show ?thesis by simp
    next
      case 3
      with le show ?thesis by blast
    qed
  qed
qed


lemma group_values_rows:
  "group_values (locations df) (column c df) k =
     map (\<lambda>(i, r). cells r c) (filter (\<lambda>(i, r). location r = k) (rows df))"
proof -
  have "group_values (map (\<lambda>(i, r). location r) xs) (map (\<lambda>(i, r). cells r c) xs) k =
     map (\<lambda>(i, r). cells r c) (filter (\<lambda>(i, r). location r = k) xs)" for xs :: "(nat \<times> row) list"
    by (induction xs) (auto simp: group_values_def)
  then show ?thesis by (simp add: locations_def column_def)
qed

lemma map_of_dropna_map:
  "distinct ks \<Longrightarrow>
     map_of (dropna (map (\<lambda>k. (k, g k)) ks)) k = (if k \<in> set ks then g k else None)"
proof (induction ks)
  case Nil
  then show ?case by (simp add: dropna_def)
next
  case (Cons a ks)
  then have ih: "map_of (dropna (map (\<lambda>k. (k, g k)) ks)) k = (if k \<in> set ks then g k else None)"
    by simp
  have step: "dropna (map (\<lambda>k. (k, g k)) (a # ks)) =
      (case g a of None \<Rightarrow> [] | Some v \<Rightarrow> [(a, v)]) @ dropna (map (\<lambda>k. (k, g k)) ks)"
    by (simp add: dropna_def)
  show ?case
  proof (cases "k = a")
    case True
    with Cons.prems ih show ?thesis
      unfolding step by (cases "g a") auto
  next
    case False
    with ih show ?thesis unfolding step by (cases "g a") auto
  qed
qed

lemma map_fst_dropna_subseq:
  "distinct (map fst xs) \<Longrightarrow> distinct (map fst (dropna xs))"
proof (induction xs)
  case Nil
  then show ?case by (simp add: dropna_def)
next
  case (Cons a xs)
  obtain k x where a: "a = (k, x)" by (cases a)
  have sub: "set (map fst (dropna xs)) \<subseteq> set (map fst xs)"
    by (auto simp: dropna_def split: option.splits) (metis fst_conv image_eqI)
  have step: "dropna (a # xs) = (case x of None \<Rightarrow> [] | Some v \<Rightarrow> [(k, v)]) @ dropna xs"
    using a by (simp add: dropna_def)
  from Cons have "distinct (map fst (dropna xs))" "k \<notin> set (map fst xs)"
    using a by simp_all
  with sub show ?case unfolding step by (cases x) auto
qed

lemma sum64_from_None [simp]: "sum64_from None vs = None"
  by (cases vs) simp_all

lemma sum64_from_PInf: "sum64_from (Some PInf) vs = (if NInf \<in> set vs then None else Some PInf)"
proof (induction vs)
  case Nil
  then show ?case by simp
next
  case (Cons v vs)
  then show ?case by (cases v) simp_all
qed

lemma sum64_from_NInf: "sum64_from (Some NInf) vs = (if PInf \<in> set vs then None else Some NInf)"
proof (induction vs)
  case Nil
  then show ?case by simp
next
  case (Cons v vs)
  then show ?case by (cases v) simp_all
qed

lemma sum64_from_Fin:
  "sum64_from (Some (Fin a)) vs =
     (if PInf \<in> set vs \<and> NInf \<in> set vs then None
      else if PInf \<in> set vs then Some PInf
      else if NInf \<in> set vs then Some NInf
      else Some (Fin (a + sum_list (map fin_part vs))))"
proof (induction vs arbitrary: a)
  case Nil
  then show ?case by simp
next
  case (Cons v vs)
  show ?case
  proof (cases v)
    case (Fin x)
    then show ?thesis by (simp add: Cons.IH fin_part_def add.assoc)
  next
    case PInf
    then show ?thesis by (simp add: sum64_from_PInf)
  next
    case NInf
    then show ?thesis by (simp add: sum64_from_NInf)
  qed
qed

lemma mean_window_mean:
  "mean xs = (case present xs of [] \<Rightarrow> None | v # vs \<Rightarrow> window_mean (v # vs))"
proof (cases "present xs")
  case Nil
  then show ?thesis by (simp add: mean_def)
next
  case (Cons v vs)
  have pos: "real (length (v # vs)) \<noteq> 0" by simp
  have "(case sum64 (v # vs) of None \<Rightarrow> None
         | Some sm \<Rightarrow> div64 sm (Fin (real (length (v # vs))))) = window_mean (v # vs)"
    unfolding sum64_def sum64_from_Fin window_mean_def using pos
    by (simp del: of_nat_Suc length_Cons list.size add: less_le)
  with Cons show ?thesis by (simp add: mean_def)
qed

lemma window_mean_numbers:
  "xs \<noteq> [] \<Longrightarrow> window_mean (map Fin xs) = Some (Fin (sum_list xs / real (length xs)))"
proof -
  have "map fin_part (map Fin xs) = xs"
    by (induction xs) (simp_all add: fin_part_def)
  then show ?thesis by (auto simp: window_mean_def)
qed

lemma present_Nil_iff: "present xs = [] \<longleftrightarrow> (\<forall>x \<in> set xs. x = None)"
  by (induction xs) (auto simp: present_def split: option.splits)

lemma avg_new_cases_lookup:
  assumes mx: "\<forall>(i, r) \<in> set (rows dfc). \<forall>d. date r = Some d \<longrightarrow> d \<le> max_date"
  shows "map_of (avg_new_cases dfc max_date) loc =
           (case window_values dfc max_date loc of
              [] \<Rightarrow> None
            | v # vs \<Rightarrow> window_mean (v # vs))"
proof -
  let ?W = "last_month_df dfc max_date"
  let ?g = "\<lambda>k. mean (group_values (locations ?W) (column ''new_cases'' ?W) k)"
  have flt: "filter (\<lambda>(i, r). location r = loc) (rows ?W) =
        filter (\<lambda>(i, r). location r = loc
                  \<and> (case date r of None \<Rightarrow> False
                     | Some d \<Rightarrow> max_date - 30 \<le> d \<and> d \<le> max_date)) (rows dfc)"
    unfolding last_month_df_def using mx
    by (auto simp: split_beta intro!: filter_cong split: option.splits)
  have gv: "present (group_values (locations ?W) (column ''new_cases'' ?W) loc)
              = window_values dfc max_date loc"
    by (simp only: group_values_rows flt window_values_def)
  have lookup: "map_of (avg_new_cases dfc max_date) loc =
      (if loc \<in> set (group_keys (locations ?W)) then ?g loc else None)"
    unfolding avg_new_cases_def groupby_mean_def
    by (rule map_of_dropna_map) simp
  show ?thesis
  proof (cases "loc \<in> set (group_keys (locations ?W))")
    case True
    with lookup gv show ?thesis by (simp add: mean_window_mean)
  next
    case False
    then have "filter (\<lambda>(i, r). location r = loc) (rows ?W) = []"
      by (auto simp: locations_def filter_empty_conv image_iff)
    then have "window_values dfc max_date loc = []"
      unfolding gv[symmetric] group_values_rows by (simp add: present_def)
    with lookup False show ?thesis by simp
  qed
qed

lemma avg_new_cases_distinct: "distinct (map fst (avg_new_cases dfc max_date))"
  unfolding avg_new_cases_def groupby_mean_def
  by (rule map_fst_dropna_subseq) (simp add: comp_def)

text \<open>
  Claim C4. Let \<open>max_date\<close> be the greatest date of all filtered rows (line 302): some
  row has it and no row has a later one. Then the windowed mapping of lines 304--306 has
  one entry per location at most, and its value at a location is the mean of the
  \<^verbatim>\<open>new_cases\<close> values present in that location's rows dated within
  \<open>[max_date - 30, max_date]\<close>; a location without such a value has no entry. For
  numbers the mean is their sum over their count; \<open>window_mean\<close> says what it is when
  infinities are among the values.
\<close>

theorem windowed_average:
  assumes "series_max (dates dfc) = Some max_date"
  shows "(\<exists>(i, r) \<in> set (rows dfc). date r = Some max_date)
       \<and> (\<forall>(i, r) \<in> set (rows dfc). \<forall>d. date r = Some d \<longrightarrow> d \<le> max_date)
       \<and> distinct (map fst (avg_new_cases dfc max_date))
       \<and> (\<forall>loc xs. window_values dfc max_date loc = map Fin xs \<longrightarrow>
              map_of (avg_new_cases dfc max_date) loc =
                (case xs of
                   [] \<Rightarrow> None
                 | v # vs \<Rightarrow> Some (Fin (sum_list (v # vs) / real (length (v # vs))))))
       \<and> (\<forall>loc. map_of (avg_new_cases dfc max_date) loc =
              (case window_values dfc max_date loc of
                 [] \<Rightarrow> None
               | v # vs \<Rightarrow> window_mean (v # vs)))"
proof -
  from series_max_SomeD[OF assms]
  have a: "Some max_date \<in> set (dates dfc)"
    and b: "\<forall>x \<in> set (dates dfc). \<forall>d. x = Some d \<longrightarrow> d \<le> max_date" by blast+
  from a obtain i r where "(i, r) \<in> set (rows dfc)" "date r = Some max_date"
    by (auto simp: dates_def)
  then have ex: "\<exists>(i, r) \<in> set (rows dfc). date r = Some max_date"
    by (intro bexI[of _ "(i, r)"]) simp_all
  have all: "\<forall>(i, r) \<in> set (rows dfc). \<forall>d. date r = Some d \<longrightarrow> d \<le> max_date"
  proof (intro ballI, clarify)
    fix i r d assume "(i, r) \<in> set (rows dfc)" "date r = Some d"
    then have "Some d \<in> set (dates dfc)"
      unfolding dates_def by (auto simp: image_iff intro!: bexI[of _ "(i, r)"])
    with b show "d \<le> max_date" by blast
  qed
  note look = avg_new_cases_lookup[OF all]
  have numbers: "map_of (avg_new_cases dfc max_date) loc =
                (case xs of
                   [] \<Rightarrow> None
                 | v # vs \<Rightarrow> Some (Fin (sum_list (v # vs) / real (length (v # vs)))))"
    if "window_values dfc max_date loc = map Fin xs" for loc xs
  proof (cases xs)
    case Nil
    with that look[of loc] show ?thesis by simp
  next
    case (Cons v vs)
    then have "window_mean (map Fin xs) = Some (Fin (sum_list xs / real (length xs)))"
      by (intro window_mean_numbers) simp
    with that look[of loc] Cons show ?thesis by simp
  qed
  from ex all avg_new_cases_distinct look numbers show ?thesis by blast
qed

text \<open>
  The theorem at \<open>window_example\<close>: the qualifying values 10 and 20 give 15, and
  India, with no row in the window of the global greatest date, has no entry.
\<close>

theorem windowed_average_witness:
  "series_max (dates (filled_series [''new_cases''] window_example)) = Some 100
   \<and> window_values (filled_series [''new_cases''] window_example) 100 ''Kenya''
        = map Fin [10, 20]
   \<and> window_values (filled_series [''new_cases''] window_example) 100 ''India'' = map Fin []
   \<and> map_of (avg_new_cases (filled_series [''new_cases''] window_example) 100) ''Kenya''
        = Some (Fin 15)
   \<and> map_of (avg_new_cases (filled_series [''new_cases''] window_example) 100) ''India'' = None
   \<and> avg_new_cases (filled_series [''new_cases''] window_example) 100 = [(''Kenya'', Fin 15)]"
proof -
  let ?F = "filled_series [''new_cases''] window_example"
  have m: "series_max (dates ?F) = Some 100" by code_simp
  have k: "window_values ?F 100 ''Kenya'' = map Fin [10, 20]" by code_simp
  have i: "window_values ?F 100 ''India'' = map Fin []" by code_simp
  have a: "avg_new_cases ?F 100 = [(''Kenya'', Fin 15)]" by code_simp
  from windowed_average[OF m] have look:
    "\<forall>loc xs. window_values ?F 100 loc = map Fin xs \<longrightarrow>
              map_of (avg_new_cases ?F 100) loc =
                (case xs of
                   [] \<Rightarrow> None
                 | v # vs \<Rightarrow> Some (Fin (sum_list (v # vs) / real (length (v # vs)))))" by blast
  have "map_of (avg_new_cases ?F 100) ''Kenya'' = Some (Fin 15)"
    using look[rule_format, OF k] by simp
  moreover have "map_of (avg_new_cases ?F 100) ''India'' = None"
    using look[rule_format, OF i] by simp
  ultimately show ?thesis using m k i a by simp
qed

section \<open>Empty input\<close>

lemma length_rows_fill_key_metrics [simp]:
  "length (rows (fill_key_metrics df)) = length (rows df)"
proof -
  have "length (index (fill_key_metrics df)) = length (index df)"
    by (simp add: fill_key_metrics_def)
  then show ?thesis by simp
qed

text \<open>
  Claim C5. When the loaded table has no row of a configured location (an empty table
  included), the filled frame and the snapshot have no rows, and section 6 prints the
  single line of line 327: no insight, and no \<open>Failed\<close> line of an exception.
\<close>

theorem empty_input_resilience:
  assumes "\<forall>r \<in> set rs. location r \<notin> set countries_of_interest"
  shows "rows (filled_series cols rs) = []
       \<and> rows (snapshot cols rs) = []
       \<and> insights plots_ok cols rs = [NoInsights]"
proof -
  have "rows (df_countries (read_csv cols rs)) = []"
    using assms
    by (auto simp: df_countries_def read_csv_def filter_empty_conv in_set_enumerate_eq)
  then have "length (rows (filled_series cols rs)) = 0"
    by (simp add: filled_series_def)
  then have f: "rows (filled_series cols rs) = []" by simp
  then have s: "snapshot cols rs = empty_frame"
    by (simp add: snapshot_def latest_df_empty)
  have "vaccination_analysis plots_ok (filled_series cols rs) empty_frame = empty_frame"
    by (simp add: vaccination_analysis_def)
  then have "insights plots_ok cols rs = [NoInsights]"
    by (simp add: insights_def s key_insights_def)
  with f s show ?thesis by simp
qed

text \<open>The theorem at a table with one row of France and at the empty table.\<close>

theorem empty_input_resilience_witness:
  "list_all (\<lambda>r. location r \<notin> set countries_of_interest) no_match_example
   \<and> rows (filled_series [''total_cases''] no_match_example) = []
   \<and> rows (snapshot [''total_cases''] no_match_example) = []
   \<and> insights True [''total_cases''] no_match_example = [NoInsights]
   \<and> rows (filled_series [''total_cases''] []) = []
   \<and> rows (snapshot [''total_cases''] []) = []
   \<and> insights True [''total_cases''] [] = [NoInsights]"
proof -
  have h: "\<forall>r \<in> set no_match_example. location r \<notin> set countries_of_interest"
    by (simp add: no_match_example_def csv_row_def countries_of_interest_def)
  have e: "\<forall>r \<in> set ([] :: row list). location r \<notin> set countries_of_interest" by simp
  show ?thesis
    using empty_input_resilience[OF h, of "[''total_cases'']" True]
      empty_input_resilience[OF e, of "[''total_cases'']" True] h
    by (simp add: list_all_iff)
qed

section \<open>Key insights\<close>


lemma notna_any_iff: "notna_any xs \<longleftrightarrow> (\<exists>x \<in> set xs. x \<noteq> None)"
  by (auto simp: notna_any_def filter_empty_conv)


lemma idxmax_zip_none:
  assumes "\<not> notna_any xs"
  shows "idxmax (zip ls xs) = None"
  unfolding idxmax_None_iff using assms
  by (auto simp: notna_any_iff dest: set_zip_rightD)



lemma columns_set_column_other:
  "c' \<noteq> c \<Longrightarrow> c' \<in> set (columns (set_column c vs df)) \<longleftrightarrow> c' \<in> set (columns df)"
  by (simp add: set_column_def)

lemma length_death_rate [simp]: "length (death_rate L) = length (rows L)"
  by (simp add: death_rate_def length_rate_values)

lemma length_vax_rate [simp]: "length (vax_rate L) = length (rows L)"
  by (simp add: vax_rate_def length_rate_values)




lemma fst_query2:
  "fst (query2 L) =
     (if ''total_deaths'' \<in> set (columns L) \<and> ''total_cases'' \<in> set (columns L)
      then set_column ''death_rate'' (death_rate L) L else L)"
  by (simp add: query2_def Let_def)

lemma fst_query3:
  "fst (query3 L) =
     (if ''people_vaccinated'' \<in> set (columns L) \<and> ''population'' \<in> set (columns L)
      then set_column ''vax_rate'' (vax_rate L) L else L)"
  by (simp add: query3_def Let_def)

lemma query2_frame [simp]:
  "index (fst (query2 L)) = index L"
  "locations (fst (query2 L)) = locations L"
  "c \<noteq> ''death_rate'' \<Longrightarrow> column c (fst (query2 L)) = column c L"
  "c \<noteq> ''death_rate'' \<Longrightarrow> c \<in> set (columns (fst (query2 L))) \<longleftrightarrow> c \<in> set (columns L)"
  by (simp_all add: fst_query2 index_set_column locations_set_column column_set_column
        columns_set_column_other)

lemma query3_frame [simp]:
  "index (fst (query3 L)) = index L"
  "locations (fst (query3 L)) = locations L"
  "c \<noteq> ''vax_rate'' \<Longrightarrow> column c (fst (query3 L)) = column c L"
  "c \<noteq> ''vax_rate'' \<Longrightarrow> c \<in> set (columns (fst (query3 L))) \<longleftrightarrow> c \<in> set (columns L)"
  by (simp_all add: fst_query3 index_set_column locations_set_column column_set_column
        columns_set_column_other)













lemma vaccination_analysis_frame [simp]:
  "index (vaccination_analysis plots_ok dfc L) = index L"
  "locations (vaccination_analysis plots_ok dfc L) = locations L"
  "c \<noteq> ''vax_percentage'' \<Longrightarrow> column c (vaccination_analysis plots_ok dfc L) = column c L"
  "c \<noteq> ''vax_percentage'' \<Longrightarrow>
     c \<in> set (columns (vaccination_analysis plots_ok dfc L)) \<longleftrightarrow> c \<in> set (columns L)"
  by (simp_all add: vaccination_analysis_def index_set_column locations_set_column
        column_set_column columns_set_column_other)

lemma vaccination_analysis_rates [simp]:
  "death_rate (vaccination_analysis plots_ok dfc L) = death_rate L"
  "vax_rate (vaccination_analysis plots_ok dfc L) = vax_rate L"
  by (simp_all add: death_rate_def vax_rate_def)

lemma query_frames_rates [simp]:
  "death_rate (fst (query3 L)) = death_rate L"
  "vax_rate (fst (query3 L)) = vax_rate L"
  "death_rate (fst (query2 L)) = death_rate L"
  "vax_rate (fst (query2 L)) = vax_rate L"
  by (simp_all add: death_rate_def vax_rate_def)



















end
